theory Spec2Isabelle
  imports
    Complex_Main
    "HOL-Library.Word"
    "HOL-Library.List_Lexorder"
    "HOL-Library.Multiset"
begin

unbundle bit_operations_syntax

section \<open>Python values\<close>

text \<open>
  A Python \<^verbatim>\<open>str\<close> is a sequence of Unicode code points (\<open>ord\<close> of each character),
  so \<open>len\<close> is \<open>length\<close> and the order on strings is the lexicographic order on code
  points, as in Python. \<open>py\<close> reads an ASCII literal.
\<close>

type_synonym pystr = "nat list"

definition py :: "string \<Rightarrow> pystr" where
  "py s = map of_char s"

text \<open>
  The values that \<^verbatim>\<open>json.dumps\<close> and \<^verbatim>\<open>json.loads\<close> exchange. A \<^verbatim>\<open>dict\<close> keeps its
  insertion order, so it is an association list (with distinct keys); floats are left out.
\<close>

datatype pyval =
    PNone
  | PBool bool
  | PInt int
  | PStr pystr
  | PList "pyval list"
  | PDict "(pystr \<times> pyval) list"

text \<open>The exceptions the demo can meet.\<close>

datatype pyexc =
    RedisError
  | JSONDecodeError
  | KeyError
  | IndexError
  | TypeError
  | AttributeError
  | UnicodeEncodeError
  | ComputeError pystr

section \<open>\<^verbatim>\<open>json.dumps\<close> (default separators, \<^verbatim>\<open>ensure_ascii=True\<close>)\<close>

text \<open>
  \<^verbatim>\<open>'{0:04x}'.format(n)\<close> for \<open>n < 0x10000\<close>: four lower-case hexadecimal digits.
\<close>

definition hex_digit :: "nat \<Rightarrow> nat" where
  "hex_digit d = (if d < 10 then 48 + d else 87 + d)"

definition hex4 :: "nat \<Rightarrow> pystr" where
  "hex4 n = [hex_digit (n div 4096 mod 16), hex_digit (n div 256 mod 16),
             hex_digit (n div 16 mod 16), hex_digit (n mod 16)]"

definition u_escape :: "nat \<Rightarrow> pystr" where
  "u_escape n = [92, 117] @ hex4 n"

text \<open>
  \<^verbatim>\<open>py_encode_basestring_ascii\<close>: the characters matched by
  \<^verbatim>\<open>ESCAPE_ASCII = ([\\"]|[^\ -~])\<close> are replaced, first from \<^verbatim>\<open>ESCAPE_DCT\<close>
  (backslash, quote, \<^verbatim>\<open>\b \f \n \r \t\<close>), then as \<^verbatim>\<open>\uXXXX\<close>, a code point from
  \<open>0x10000\<close> on as a surrogate pair
  \<^verbatim>\<open>s1 = 0xd800 | ((n >> 10) & 0x3ff)\<close>, \<^verbatim>\<open>s2 = 0xdc00 | (n & 0x3ff)\<close> with
  \<^verbatim>\<open>n -= 0x10000\<close>.
\<close>

definition escape_char :: "nat \<Rightarrow> pystr" where
  "escape_char c =
     (if c = 92 then [92, 92]
      else if c = 34 then [92, 34]
      else if c = 8 then [92, 98]
      else if c = 12 then [92, 102]
      else if c = 10 then [92, 110]
      else if c = 13 then [92, 114]
      else if c = 9 then [92, 116]
      else if 32 \<le> c \<and> c \<le> 126 then [c]
      else if c < 0x10000 then u_escape c
      else (let n = c - 0x10000
            in u_escape (0xd800 OR (drop_bit 10 n AND 0x3ff)) @
               u_escape (0xdc00 OR (n AND 0x3ff))))"

definition encode_str :: "pystr \<Rightarrow> pystr" where
  "encode_str s = [34] @ concat (map escape_char s) @ [34]"

text \<open>\<^verbatim>\<open>int.__repr__\<close>: decimal digits, a minus sign for a negative number.\<close>

fun nat_digits :: "nat \<Rightarrow> pystr" where
  "nat_digits n = (if n < 10 then [48 + n] else nat_digits (n div 10) @ [48 + n mod 10])"

declare nat_digits.simps [simp del]

definition int_repr :: "int \<Rightarrow> pystr" where
  "int_repr i = (if i < 0 then 45 # nat_digits (nat (- i)) else nat_digits (nat i))"

text \<open>\<^verbatim>\<open>', '.join(parts)\<close>\<close>

fun join_sep :: "pystr list \<Rightarrow> pystr" where
  "join_sep [] = []"
| "join_sep [x] = x"
| "join_sep (x # y # ys) = x @ [44, 32] @ join_sep (y # ys)"

text \<open>
  The encoder. With \<^verbatim>\<open>sort_keys=True\<close> the items of every dict, nested ones included,
  are emitted as \<^verbatim>\<open>sorted(dct.items())\<close>; the keys of a dict are distinct, so that is
  the order of the keys.
\<close>

lemma size_dict_item:
  "(k, v) \<in> set kvs \<Longrightarrow> size v < Suc (size_list (size_prod (\<lambda>x. 0) size) kvs)"
  by (induction kvs) auto

function (sequential) json_dumps :: "bool \<Rightarrow> pyval \<Rightarrow> pystr" where
  "json_dumps sk PNone = py ''null''"
| "json_dumps sk (PBool b) = (if b then py ''true'' else py ''false'')"
| "json_dumps sk (PInt i) = int_repr i"
| "json_dumps sk (PStr s) = encode_str s"
| "json_dumps sk (PList vs) = [91] @ join_sep (map (json_dumps sk) vs) @ [93]"
| "json_dumps sk (PDict kvs) =
     [123] @
     join_sep (map (\<lambda>kv. encode_str (fst kv) @ [58, 32] @ json_dumps sk (snd kv))
                   (if sk then sort_key fst kvs else kvs)) @
     [125]"
  by pat_completeness auto

termination
proof (relation "measure (\<lambda>p. size (snd p))")
  fix sk :: bool and kvs :: "(pystr \<times> pyval) list" and x :: "pystr \<times> pyval"
  assume "x \<in> set (if sk then sort_key fst kvs else kvs)"
  then have "(fst x, snd x) \<in> set kvs"
    by (simp split: if_splits)
  then show "((sk, snd x), (sk, PDict kvs)) \<in> measure (\<lambda>p. size (snd p))"
    using size_dict_item [of "fst x" "snd x" kvs] by simp
qed (auto simp: less_Suc_eq_le size_list_estimation')

section \<open>\<^verbatim>\<open>str.encode()\<close> (UTF-8)\<close>

type_synonym byte = "8 word"

definition utf8_char :: "nat \<Rightarrow> pyexc + byte list" where
  "utf8_char c =
     (if c < 0x80 then Inr [of_nat c]
      else if c < 0x800 then Inr [of_nat (0xC0 + c div 64), of_nat (0x80 + c mod 64)]
      else if 0xD800 \<le> c \<and> c \<le> 0xDFFF then Inl UnicodeEncodeError
      else if c < 0x10000 then
        Inr [of_nat (0xE0 + c div 4096), of_nat (0x80 + c div 64 mod 64),
             of_nat (0x80 + c mod 64)]
      else if c < 0x110000 then
        Inr [of_nat (0xF0 + c div 262144), of_nat (0x80 + c div 4096 mod 64),
             of_nat (0x80 + c div 64 mod 64), of_nat (0x80 + c mod 64)]
      else Inl UnicodeEncodeError)"

fun str_encode :: "pystr \<Rightarrow> pyexc + byte list" where
  "str_encode [] = Inr []"
| "str_encode (c # cs) =
     (case utf8_char c of
        Inl e \<Rightarrow> Inl e
      | Inr bs \<Rightarrow> (case str_encode cs of Inl e \<Rightarrow> Inl e | Inr rest \<Rightarrow> Inr (bs @ rest)))"

section \<open>\<^verbatim>\<open>hashlib.sha256(...).hexdigest()\<close> (FIPS 180-4)\<close>

text \<open>
  The round constants are the first 32 bits of the fractional parts of the cube roots of
  the first 64 primes, the initial hash value those of the square roots of the first
  8 primes; both are written in decimal.
\<close>

type_synonym w32 = "32 word"

definition K256 :: "w32 list" where
  "K256 =
    [1116352408, 1899447441, 3049323471, 3921009573, 961987163, 1508970993,
     2453635748, 2870763221, 3624381080, 310598401, 607225278, 1426881987,
     1925078388, 2162078206, 2614888103, 3248222580, 3835390401, 4022224774,
     264347078, 604807628, 770255983, 1249150122, 1555081692, 1996064986,
     2554220882, 2821834349, 2952996808, 3210313671, 3336571891, 3584528711,
     113926993, 338241895, 666307205, 773529912, 1294757372, 1396182291,
     1695183700, 1986661051, 2177026350, 2456956037, 2730485921, 2820302411,
     3259730800, 3345764771, 3516065817, 3600352804, 4094571909, 275423344,
     430227734, 506948616, 659060556, 883997877, 958139571, 1322822218,
     1537002063, 1747873779, 1955562222, 2024104815, 2227730452, 2361852424,
     2428436474, 2756734187, 3204031479, 3329325298]"

definition H256 :: "w32 list" where
  "H256 = [1779033703, 3144134277, 1013904242, 2773480762,
           1359893119, 2600822924, 528734635, 1541459225]"

definition sha_pad :: "byte list \<Rightarrow> byte list" where
  "sha_pad msg =
     (let l = length msg; bits = (of_nat (8 * l) :: 64 word)
      in msg @ [0x80] @ replicate ((119 - l mod 64) mod 64) 0 @
         map (\<lambda>i. ucast (drop_bit (8 * (7 - i)) bits)) [0..<8])"

fun be_words :: "byte list \<Rightarrow> w32 list" where
  "be_words (a # b # c # d # rest) =
     (push_bit 24 (ucast a) OR push_bit 16 (ucast b) OR push_bit 8 (ucast c) OR ucast d)
       # be_words rest"
| "be_words _ = []"

fun chunks16 :: "w32 list \<Rightarrow> w32 list list" where
  "chunks16 [] = []"
| "chunks16 (w # ws) = take 16 (w # ws) # chunks16 (drop 16 (w # ws))"

definition ssig0 :: "w32 \<Rightarrow> w32" where
  "ssig0 x = word_rotr 7 x XOR word_rotr 18 x XOR drop_bit 3 x"

definition ssig1 :: "w32 \<Rightarrow> w32" where
  "ssig1 x = word_rotr 17 x XOR word_rotr 19 x XOR drop_bit 10 x"

definition bsig0 :: "w32 \<Rightarrow> w32" where
  "bsig0 x = word_rotr 2 x XOR word_rotr 13 x XOR word_rotr 22 x"

definition bsig1 :: "w32 \<Rightarrow> w32" where
  "bsig1 x = word_rotr 6 x XOR word_rotr 11 x XOR word_rotr 25 x"

definition ch :: "w32 \<Rightarrow> w32 \<Rightarrow> w32 \<Rightarrow> w32" where
  "ch e f g = (e AND f) XOR (NOT e AND g)"

definition maj :: "w32 \<Rightarrow> w32 \<Rightarrow> w32 \<Rightarrow> w32" where
  "maj a b c = (a AND b) XOR (a AND c) XOR (b AND c)"

primrec schedule :: "nat \<Rightarrow> w32 list \<Rightarrow> w32 list" where
  "schedule 0 ws = ws"
| "schedule (Suc n) ws =
     (let t = length ws
      in schedule n (ws @ [ssig1 (ws ! (t - 2)) + ws ! (t - 7) + ssig0 (ws ! (t - 15)) +
                           ws ! (t - 16)]))"

definition sha_round :: "w32 list \<Rightarrow> w32 \<times> w32 \<Rightarrow> w32 list" where
  "sha_round s kw =
     (case s of
        [a, b, c, d, e, f, g, h] \<Rightarrow>
          (let t1 = h + bsig1 e + ch e f g + fst kw + snd kw;
               t2 = bsig0 a + maj a b c
           in [t1 + t2, a, b, c, d + t1, e, f, g])
      | _ \<Rightarrow> s)"

definition compress :: "w32 list \<Rightarrow> w32 list \<Rightarrow> w32 list" where
  "compress hs block =
     map2 (+) hs (foldl sha_round hs (zip K256 (schedule 48 block)))"

definition sha256 :: "byte list \<Rightarrow> w32 list" where
  "sha256 msg = foldl compress H256 (chunks16 (be_words (sha_pad msg)))"

definition hex8 :: "w32 \<Rightarrow> pystr" where
  "hex8 w = map (\<lambda>i. hex_digit (unat (drop_bit (4 * (7 - i)) w AND 0xF))) [0..<8]"

definition sha256_hexdigest :: "byte list \<Rightarrow> pystr" where
  "sha256_hexdigest msg = concat (map hex8 (sha256 msg))"

section \<open>\<^verbatim>\<open>RedisCache.get_cache_key\<close>\<close>

text \<open>
  \<^verbatim>\<open>kwargs\<close> is a dict in the caller's insertion order. \<^verbatim>\<open>sorted(kwargs.items())\<close>
  compares the (key, value) tuples; the keys of a dict are distinct, so the values are
  never compared and the result is the items in the order of their keys. The dict
  comprehension then inserts them in that order.
\<close>

definition key_data :: "pystr \<Rightarrow> pystr \<Rightarrow> pyval list \<Rightarrow> (pystr \<times> pyval) list \<Rightarrow> pyval" where
  "key_data provider model messages kwargs =
     PDict [(py ''provider'', PStr provider),
            (py ''model'', PStr model),
            (py ''messages'', PList messages),
            (py ''params'', PDict (sort_key fst kwargs))]"

definition key_json :: "pystr \<Rightarrow> pystr \<Rightarrow> pyval list \<Rightarrow> (pystr \<times> pyval) list \<Rightarrow> pystr" where
  "key_json provider model messages kwargs =
     json_dumps True (key_data provider model messages kwargs)"

definition get_cache_key ::
  "pystr \<Rightarrow> pystr \<Rightarrow> pyval list \<Rightarrow> (pystr \<times> pyval) list \<Rightarrow> pyexc + pystr" where
  "get_cache_key provider model messages kwargs =
     (case str_encode (key_json provider model messages kwargs) of
        Inl e \<Rightarrow> Inl e
      | Inr bytes \<Rightarrow> Inr (py ''llm_cache:'' @ sha256_hexdigest bytes))"

section \<open>The Redis server and its client\<close>

text \<open>
  The server's keyspace is a table of slots, each empty or holding one entry
  (key, value, time to live in seconds as given to \<^verbatim>\<open>SETEX\<close>). A new key takes a new
  slot at the end, a known key is overwritten in place, and \<^verbatim>\<open>DEL\<close> empties the slot,
  so the position of an entry never changes: that is what a \<^verbatim>\<open>SCAN\<close> cursor relies on.
  The keys of a table are distinct. No time passes in this model; entries do not expire.

  \<open>faults\<close> is the fate of the coming commands, one flag per command: \<open>True\<close> means
  that the command fails in transport and the client raises \<^verbatim>\<open>redis.RedisError\<close>.
  When the list is used up, every command reaches the server. \<open>trace\<close> records the
  commands the client has issued.
\<close>

datatype command =
    GET pystr
  | SETEX pystr int pystr
  | SCAN nat pystr nat
  | DEL "pystr list"

type_synonym slot = "(pystr \<times> pystr \<times> int) option"

record redis =
  table :: "slot list"
  faults :: "bool list"
  trace :: "command list"

fun lookup :: "slot list \<Rightarrow> pystr \<Rightarrow> (pystr \<times> int) option" where
  "lookup [] k = None"
| "lookup (None # ss) k = lookup ss k"
| "lookup (Some (k', v, t) # ss) k = (if k' = k then Some (v, t) else lookup ss k)"

fun store :: "slot list \<Rightarrow> pystr \<Rightarrow> pystr \<Rightarrow> int \<Rightarrow> slot list" where
  "store [] k v t = [Some (k, v, t)]"
| "store (None # ss) k v t = None # store ss k v t"
| "store (Some (k', v', t') # ss) k v t =
     (if k' = k then Some (k, v, t) # ss else Some (k', v', t') # store ss k v t)"

definition remove :: "pystr list \<Rightarrow> slot \<Rightarrow> slot" where
  "remove ks sl = (case sl of None \<Rightarrow> None | Some (k, v, t) \<Rightarrow> if k \<in> set ks then None else sl)"

definition slot_keys :: "slot list \<Rightarrow> pystr list" where
  "slot_keys ss = map fst (List.map_filter id ss)"

text \<open>
  Glob patterns of \<^verbatim>\<open>SCAN ... MATCH\<close>: \<^verbatim>\<open>*\<close> (code point 42) matches any run of
  characters, \<^verbatim>\<open>?\<close> (63) any single one, a backslash (92) takes the next pattern
  character literally. Bracket classes are not modelled; the demo's patterns have none.
\<close>

fun glob_match :: "pystr \<Rightarrow> pystr \<Rightarrow> bool" where
  "glob_match [] s = (s = [])"
| "glob_match (p # ps) [] = (p = 42 \<and> glob_match ps [])"
| "glob_match (p # ps) (c # cs) =
     (if p = 42 then glob_match ps (c # cs) \<or> glob_match (p # ps) cs
      else if p = 63 then glob_match ps cs
      else if p = 92 \<and> ps \<noteq> [] then hd ps = c \<and> glob_match (tl ps) cs
      else p = c \<and> glob_match ps cs)"

text \<open>
  Every command is recorded and takes the next flag of \<open>faults\<close>; the result tells
  whether it reached the server.
\<close>

definition transport :: "command \<Rightarrow> redis \<Rightarrow> bool \<times> redis" where
  "transport c r =
     (case faults r of
        [] \<Rightarrow> (True, r\<lparr>trace := trace r @ [c]\<rparr>)
      | f # fs \<Rightarrow> (\<not> f, r\<lparr>faults := fs, trace := trace r @ [c]\<rparr>))"

text \<open>\<^verbatim>\<open>client.get(key)\<close> with \<^verbatim>\<open>decode_responses=True\<close>: the value, or \<^verbatim>\<open>None\<close>.\<close>

definition redis_get :: "pystr \<Rightarrow> redis \<Rightarrow> (pyexc + pystr option) \<times> redis" where
  "redis_get k r =
     (case transport (GET k) r of
        (True, r') \<Rightarrow> (Inr (map_option fst (lookup (table r') k)), r')
      | (False, r') \<Rightarrow> (Inl RedisError, r'))"

text \<open>
  \<^verbatim>\<open>client.setex(key, ttl, value)\<close>. The server refuses a time to live that is not
  positive (\<^verbatim>\<open>invalid expire time\<close>); the client raises \<^verbatim>\<open>ResponseError\<close>, which is a
  \<^verbatim>\<open>RedisError\<close>.
\<close>

definition redis_setex :: "pystr \<Rightarrow> int \<Rightarrow> pystr \<Rightarrow> redis \<Rightarrow> (pyexc + unit) \<times> redis" where
  "redis_setex k ttl v r =
     (case transport (SETEX k ttl v) r of
        (True, r') \<Rightarrow>
          (if ttl \<le> 0 then (Inl RedisError, r')
           else (Inr (), r'\<lparr>table := store (table r') k v ttl\<rparr>))
      | (False, r') \<Rightarrow> (Inl RedisError, r'))"

text \<open>
  \<^verbatim>\<open>client.scan(cursor, match=pattern, count=n)\<close>: the server looks at the next \<open>n\<close>
  slots from the cursor and returns the keys there that match, with the next cursor,
  which is 0 when the table has been walked through.
\<close>

definition redis_scan ::
  "nat \<Rightarrow> pystr \<Rightarrow> nat \<Rightarrow> redis \<Rightarrow> (pyexc + nat \<times> pystr list) \<times> redis" where
  "redis_scan cursor pattern n r =
     (case transport (SCAN cursor pattern n) r of
        (True, r') \<Rightarrow>
          (Inr (if cursor + n < length (table r') then cursor + n else 0,
                filter (glob_match pattern) (slot_keys (take n (drop cursor (table r'))))),
           r')
      | (False, r') \<Rightarrow> (Inl RedisError, r'))"

text \<open>\<^verbatim>\<open>client.delete(*keys)\<close>: the number of keys that were there.\<close>

definition redis_delete :: "pystr list \<Rightarrow> redis \<Rightarrow> (pyexc + nat) \<times> redis" where
  "redis_delete ks r =
     (case transport (DEL ks) r of
        (True, r') \<Rightarrow>
          (Inr (length (filter (\<lambda>k. k \<in> set ks) (slot_keys (table r')))),
           r'\<lparr>table := map (remove ks) (table r')\<rparr>)
      | (False, r') \<Rightarrow> (Inl RedisError, r'))"

section \<open>\<^verbatim>\<open>RedisCache\<close>\<close>

text \<open>
  What the demo takes from outside: \<^verbatim>\<open>json.loads\<close> on a stored string (\<open>None\<close> when it
  raises \<^verbatim>\<open>JSONDecodeError\<close>), the gateway call \<^verbatim>\<open>client.chat.completions.create\<close>
  (given the number of calls made before, the provider configuration, the messages and
  the parameters; it returns the response or raises), and the readings of
  \<^verbatim>\<open>time.time()\<close> in the order they are taken. The theorems hold for every such
  environment.
\<close>

record provider_config =
  provider :: pystr
  custom_host :: pystr
  model :: pystr

record env =
  json_loads :: "pystr \<Rightarrow> pyval option"
  create :: "nat \<Rightarrow> provider_config \<Rightarrow> pyval list \<Rightarrow> (pystr \<times> pyval) list \<Rightarrow> pyexc + pyval"
  time :: "nat \<Rightarrow> real"

record RedisCache =
  default_ttl :: int

text \<open>Truth value of a Python object, as \<^verbatim>\<open>if x:\<close> takes it.\<close>

fun truthy :: "pyval \<Rightarrow> bool" where
  "truthy PNone = False"
| "truthy (PBool b) = b"
| "truthy (PInt i) = (i \<noteq> 0)"
| "truthy (PStr s) = (s \<noteq> [])"
| "truthy (PList vs) = (vs \<noteq> [])"
| "truthy (PDict kvs) = (kvs \<noteq> [])"

text \<open>
  \<^verbatim>\<open>RedisCache.get\<close>. The body of the \<^verbatim>\<open>try\<close> first; the \<^verbatim>\<open>except\<close> clause catches
  \<^verbatim>\<open>redis.RedisError\<close> and \<^verbatim>\<open>json.JSONDecodeError\<close>, after which control reaches
  \<^verbatim>\<open>return None\<close>.
\<close>

definition get_body :: "env \<Rightarrow> pystr \<Rightarrow> redis \<Rightarrow> (pyexc + pyval) \<times> redis" where
  "get_body E cache_key r =
     (case redis_get cache_key r of
        (Inl e, r') \<Rightarrow> (Inl e, r')
      | (Inr cached, r') \<Rightarrow>
          (case cached of
             None \<Rightarrow> (Inr PNone, r')
           | Some s \<Rightarrow>
               (if s \<noteq> [] then
                  (case json_loads E s of
                     None \<Rightarrow> (Inl JSONDecodeError, r')
                   | Some v \<Rightarrow> (Inr v, r'))
                else (Inr PNone, r'))))"

definition RedisCache_get :: "env \<Rightarrow> pystr \<Rightarrow> redis \<Rightarrow> (pyexc + pyval) \<times> redis" where
  "RedisCache_get E cache_key r =
     (case get_body E cache_key r of
        (Inl e, r') \<Rightarrow>
          (if e = RedisError \<or> e = JSONDecodeError then (Inr PNone, r') else (Inl e, r'))
      | (Inr v, r') \<Rightarrow> (Inr v, r'))"

text \<open>
  \<^verbatim>\<open>RedisCache.set\<close>: \<^verbatim>\<open>ttl = ttl or self.default_ttl\<close> takes the default when
  \<^verbatim>\<open>ttl\<close> is \<^verbatim>\<open>None\<close> or 0; \<^verbatim>\<open>redis.RedisError\<close> is caught.
\<close>

definition ttl_or :: "int option \<Rightarrow> int \<Rightarrow> int" where
  "ttl_or ttl d = (case ttl of None \<Rightarrow> d | Some t \<Rightarrow> if t \<noteq> 0 then t else d)"

definition RedisCache_set ::
  "RedisCache \<Rightarrow> pystr \<Rightarrow> pyval \<Rightarrow> int option \<Rightarrow> redis \<Rightarrow> (pyexc + unit) \<times> redis" where
  "RedisCache_set self cache_key response ttl r =
     (case redis_setex cache_key (ttl_or ttl (default_ttl self)) (json_dumps False response) r of
        (Inl e, r') \<Rightarrow> (if e = RedisError then (Inr (), r') else (Inl e, r'))
      | (Inr u, r') \<Rightarrow> (Inr (), r'))"

lemma table_transport: "table (snd (transport c r)) = table r"
  by (simp add: transport_def split: list.splits)

lemma redis_scan_next:
  assumes "redis_scan cursor pattern n r = (Inr (cursor', keys), r1)"
  shows "table r1 = table r" and "cursor' \<noteq> 0 \<Longrightarrow> cursor' = cursor + n \<and> cursor' < length (table r)"
  using assms table_transport [of "SCAN cursor pattern n" r]
  by (auto simp: redis_scan_def split: prod.splits bool.splits if_splits)

lemma redis_delete_length:
  assumes "redis_delete ks r = (Inr n, r')"
  shows "length (table r') = length (table r)"
  using assms table_transport [of "DEL ks" r]
  by (auto simp: redis_delete_def split: prod.splits bool.splits)

text \<open>
  \<^verbatim>\<open>RedisCache.clear\<close>: the \<^verbatim>\<open>while True\<close> loop, from the cursor and the count (\<open>cnt\<close>) it
  has reached. Nothing is caught here.
\<close>

function clear_loop :: "pystr \<Rightarrow> nat \<Rightarrow> nat \<Rightarrow> redis \<Rightarrow> (pyexc + nat) \<times> redis" where
  "clear_loop pattern cursor cnt r =
     (case redis_scan cursor pattern 100 r of
        (Inl e, r1) \<Rightarrow> (Inl e, r1)
      | (Inr (cursor', keys), r1) \<Rightarrow>
          (case (if keys \<noteq> [] then redis_delete keys r1 else (Inr 0, r1)) of
             (Inl e, r2) \<Rightarrow> (Inl e, r2)
           | (Inr n, r2) \<Rightarrow>
               (let cnt' = (if keys \<noteq> [] then cnt + length keys else cnt)
                in if cursor' = 0 then (Inr cnt', r2)
                   else clear_loop pattern cursor' cnt' r2)))"
  by pat_completeness auto

termination
proof (relation "measure (\<lambda>(pattern, cursor, cnt, r). length (table r) - cursor)")
  fix pattern :: pystr and cursor cnt :: nat and r r1 r2 :: redis
    and x :: "pyexc + nat \<times> pystr list" and y :: "nat \<times> pystr list"
    and cursor' :: nat and keys :: "pystr list" and z :: "pyexc + nat" and n cnt' :: nat
  assume scan: "(x, r1) = redis_scan cursor pattern 100 r" "x = Inr y" "(cursor', keys) = y"
    and del: "(z, r2) = (if keys \<noteq> [] then redis_delete keys r1 else (Inr 0, r1))" "z = Inr n"
    and nz: "cursor' \<noteq> 0"
  from scan have s: "redis_scan cursor pattern 100 r = (Inr (cursor', keys), r1)"
    by simp
  have len: "length (table r2) = length (table r)"
    using del redis_delete_length [of keys r1 n r2] redis_scan_next(1) [OF s]
    by (auto split: if_splits)
  show "((pattern, cursor', cnt', r2), (pattern, cursor, cnt, r))
          \<in> measure (\<lambda>(pattern, cursor, cnt, r). length (table r) - cursor)"
    using redis_scan_next(2) [OF s nz] len by auto
qed simp

declare clear_loop.simps [simp del]

definition default_pattern :: pystr where
  "default_pattern = py ''llm_cache:*''"

definition RedisCache_clear :: "pystr \<Rightarrow> redis \<Rightarrow> (pyexc + nat) \<times> redis" where
  "RedisCache_clear pattern r = clear_loop pattern 0 0 r"

section \<open>\<^verbatim>\<open>make_cached_chat_request\<close>\<close>

text \<open>
  The state outside the function: the Redis server, the number of gateway calls made
  and the number of clock readings taken.
\<close>

record world =
  server :: redis
  calls :: nat
  ticks :: nat

definition tick :: "env \<Rightarrow> world \<Rightarrow> real \<times> world" where
  "tick E w = (time E (ticks w), w\<lparr>ticks := Suc (ticks w)\<rparr>)"

definition and_then :: "'e + 'a \<Rightarrow> ('a \<Rightarrow> 'e + 'b) \<Rightarrow> 'e + 'b" where
  "and_then x f = (case x of Inl e \<Rightarrow> Inl e | Inr a \<Rightarrow> f a)"

text \<open>\<^verbatim>\<open>x[k]\<close> for a string \<open>k\<close>, and \<^verbatim>\<open>x[0]\<close>.\<close>

fun subscript_str :: "pyval \<Rightarrow> pystr \<Rightarrow> pyexc + pyval" where
  "subscript_str (PDict kvs) k = (case map_of kvs k of None \<Rightarrow> Inl KeyError | Some v \<Rightarrow> Inr v)"
| "subscript_str v k = Inl TypeError"

fun subscript_0 :: "pyval \<Rightarrow> pyexc + pyval" where
  "subscript_0 (PList []) = Inl IndexError"
| "subscript_0 (PList (v # vs)) = Inr v"
| "subscript_0 (PStr []) = Inl IndexError"
| "subscript_0 (PStr (c # cs)) = Inr (PStr [c])"
| "subscript_0 (PDict kvs) = Inl KeyError"
| "subscript_0 v = Inl TypeError"

text \<open>
  \<^verbatim>\<open>x.strip()\<close>: a string loses the leading and trailing characters for which
  \<^verbatim>\<open>str.isspace\<close> holds; other objects have no such method.
\<close>

definition isspace :: "nat \<Rightarrow> bool" where
  "isspace c \<longleftrightarrow>
     (9 \<le> c \<and> c \<le> 13) \<or> (28 \<le> c \<and> c \<le> 32) \<or> c = 133 \<or> c = 160 \<or> c = 5760 \<or>
     (8192 \<le> c \<and> c \<le> 8202) \<or> c = 8232 \<or> c = 8233 \<or> c = 8239 \<or> c = 8287 \<or> c = 12288"

definition str_strip :: "pystr \<Rightarrow> pystr" where
  "str_strip s = rev (dropWhile isspace (rev (dropWhile isspace s)))"

fun strip :: "pyval \<Rightarrow> pyexc + pystr" where
  "strip (PStr s) = Inr (str_strip s)"
| "strip v = Inl AttributeError"

text \<open>
  The response of the gateway is a pydantic object; it is represented by the dict that
  \<^verbatim>\<open>response.model_dump()\<close> returns, whose keys are the object's fields, and the
  objects nested in it likewise. Reading a field is then a lookup:
\<close>

fun attribute :: "pyval \<Rightarrow> pystr \<Rightarrow> pyexc + pyval" where
  "attribute (PDict kvs) k =
     (case map_of kvs k of None \<Rightarrow> Inl AttributeError | Some v \<Rightarrow> Inr v)"
| "attribute v k = Inl AttributeError"

text \<open>\<^verbatim>\<open>response.choices[0].message.content.strip()\<close>\<close>

definition response_content :: "pyval \<Rightarrow> pyexc + pystr" where
  "response_content response =
     and_then (attribute response (py ''choices'')) (\<lambda>choices.
     and_then (subscript_0 choices) (\<lambda>choice.
     and_then (attribute choice (py ''message'')) (\<lambda>message.
     and_then (attribute message (py ''content'')) strip)))"

text \<open>\<^verbatim>\<open>cached_response["choices"][0]["message"]["content"].strip()\<close>\<close>

definition cached_content :: "pyval \<Rightarrow> pyexc + pystr" where
  "cached_content cached_response =
     and_then (subscript_str cached_response (py ''choices'')) (\<lambda>choices.
     and_then (subscript_0 choices) (\<lambda>choice.
     and_then (subscript_str choice (py ''message'')) (\<lambda>message.
     and_then (subscript_str message (py ''content'')) strip)))"

text \<open>
  The part from \<^verbatim>\<open># Cache miss - make the API call\<close> on. The result is
  \<^verbatim>\<open>(content, elapsed_time, cache_hit)\<close>.
\<close>

definition api_call ::
  "env \<Rightarrow> RedisCache \<Rightarrow> provider_config \<Rightarrow> pystr \<Rightarrow> pyval list \<Rightarrow> (pystr \<times> pyval) list \<Rightarrow>
   bool \<Rightarrow> world \<Rightarrow> (pyexc + pystr \<times> real \<times> bool) \<times> world" where
  "api_call E cache pc cache_key messages params use_cache w =
     (let (start_time, w1) = tick E w;
          w2 = w1\<lparr>calls := Suc (calls w1)\<rparr>
      in case create E (calls w1) pc messages params of
           Inl e \<Rightarrow> (Inl e, w2)
         | Inr response \<Rightarrow>
             (let (end_time, w3) = tick E w2;
                  elapsed_time = end_time - start_time
              in case response_content response of
                   Inl e \<Rightarrow> (Inl e, w3)
                 | Inr content \<Rightarrow>
                     (if use_cache then
                        (case RedisCache_set cache cache_key response None (server w3) of
                           (Inl e, r') \<Rightarrow> (Inl e, w3\<lparr>server := r'\<rparr>)
                         | (Inr u, r') \<Rightarrow>
                             (Inr (content, elapsed_time, False), w3\<lparr>server := r'\<rparr>))
                      else (Inr (content, elapsed_time, False), w3))))"

definition make_cached_chat_request ::
  "env \<Rightarrow> RedisCache \<Rightarrow> provider_config \<Rightarrow> pystr \<Rightarrow> bool \<Rightarrow> world \<Rightarrow>
   (pyexc + pystr \<times> real \<times> bool) \<times> world" where
  "make_cached_chat_request E cache pc message use_cache w =
     (let messages = [PDict [(py ''role'', PStr (py ''user'')), (py ''content'', PStr message)]];
          params = [(py ''max_tokens'', PInt 100)]
      in case get_cache_key (provider pc) (model pc) messages params of
           Inl e \<Rightarrow> (Inl e, w)
         | Inr cache_key \<Rightarrow>
             (if use_cache then
                (let (start_time, w1) = tick E w
                 in case RedisCache_get E cache_key (server w1) of
                      (Inl e, r') \<Rightarrow> (Inl e, w1\<lparr>server := r'\<rparr>)
                    | (Inr cached_response, r') \<Rightarrow>
                        (let w2 = w1\<lparr>server := r'\<rparr>
                         in if truthy cached_response then
                              (let (end_time, w3) = tick E w2;
                                   elapsed_time = end_time - start_time
                               in case cached_content cached_response of
                                    Inl e \<Rightarrow> (Inl e, w3)
                                  | Inr content \<Rightarrow> (Inr (content, elapsed_time, True), w3))
                            else api_call E cache pc cache_key messages params use_cache w2))
              else api_call E cache pc cache_key messages params use_cache w))"

section \<open>The measurement scenarios\<close>

text \<open>
  A speedup is a Python number: a finite one, or \<^verbatim>\<open>float("inf")\<close>. Latencies are
  taken as real numbers.
\<close>

datatype pyfloat = Finite real | PosInf

datatype cache_status = HIT | MISS | NA | HIT_RATE real

record scenario =
  test :: string
  first_time :: real
  second_time :: real
  first_cache :: cache_status
  second_cache :: cache_status
  speedup :: pyfloat

definition status :: "bool \<Rightarrow> cache_status" where
  "status hit = (if hit then HIT else MISS)"

definition run_simple_cache_test ::
  "env \<Rightarrow> RedisCache \<Rightarrow> provider_config \<Rightarrow> world \<Rightarrow> (pyexc + scenario) \<times> world" where
  "run_simple_cache_test E cache pc w =
     (let test_message = py ''What is the capital of France? Answer in one word.''
      in case make_cached_chat_request E cache pc test_message True w of
           (Inl e, w1) \<Rightarrow> (Inl e, w1)
         | (Inr (answer1, time1, hit1), w1) \<Rightarrow>
             (case make_cached_chat_request E cache pc test_message True w1 of
                (Inl e, w2) \<Rightarrow> (Inl e, w2)
              | (Inr (answer2, time2, hit2), w2) \<Rightarrow>
                  (Inr \<lparr>test = ''Simple Cache (Redis)'',
                        first_time = time1,
                        second_time = time2,
                        first_cache = status hit1,
                        second_cache = status hit2,
                        speedup = (if time2 > 0 then Finite (time1 / time2) else PosInf)\<rparr>,
                   w2)))"

definition run_no_cache_baseline ::
  "env \<Rightarrow> RedisCache \<Rightarrow> provider_config \<Rightarrow> world \<Rightarrow> (pyexc + scenario) \<times> world" where
  "run_no_cache_baseline E cache pc w =
     (let message1 = py ''What color is the sky on a clear day?'';
          message2 = py ''How many legs does a spider have?''
      in case make_cached_chat_request E cache pc message1 False w of
           (Inl e, w1) \<Rightarrow> (Inl e, w1)
         | (Inr (answer1, time1, hit1), w1) \<Rightarrow>
             (case make_cached_chat_request E cache pc message2 False w1 of
                (Inl e, w2) \<Rightarrow> (Inl e, w2)
              | (Inr (answer2, time2, hit2), w2) \<Rightarrow>
                  (Inr \<lparr>test = ''No Cache (Baseline)'',
                        first_time = time1,
                        second_time = time2,
                        first_cache = NA,
                        second_cache = NA,
                        speedup = Finite 1\<rparr>,
                   w2)))"

text \<open>
  \<^verbatim>\<open>run_cache_persistence_test\<close>: the \<^verbatim>\<open>for i in range(num_requests)\<close> loop with the
  lists \<^verbatim>\<open>times\<close> (here \<open>tms\<close>) and \<^verbatim>\<open>hits\<close> it appends to, then the statistics.
\<close>

fun request_loop ::
  "env \<Rightarrow> RedisCache \<Rightarrow> provider_config \<Rightarrow> pystr \<Rightarrow> nat \<Rightarrow> real list \<Rightarrow> bool list \<Rightarrow> world \<Rightarrow>
   (pyexc + real list \<times> bool list) \<times> world" where
  "request_loop E cache pc test_message 0 tms hits w = (Inr (tms, hits), w)"
| "request_loop E cache pc test_message (Suc n) tms hits w =
     (case make_cached_chat_request E cache pc test_message True w of
        (Inl e, w') \<Rightarrow> (Inl e, w')
      | (Inr (answer, elapsed, hit), w') \<Rightarrow>
          request_loop E cache pc test_message n (tms @ [elapsed]) (hits @ [hit]) w')"

definition statistics :: "real list \<Rightarrow> bool list \<Rightarrow> pyexc + scenario" where
  "statistics tms hits =
     (case tms of
        [] \<Rightarrow> Inl IndexError
      | first # rest \<Rightarrow>
          (let avg_cached_time =
                 (if length tms > 1 then sum_list rest / real (length rest) else 0);
               speedup = (if avg_cached_time > 0 then first / avg_cached_time else 0);
               hit_rate = real (length (filter id hits)) / real (length hits) * 100
           in Inr \<lparr>test = ''Cache Persistence'',
                   first_time = first,
                   second_time = avg_cached_time,
                   first_cache = MISS,
                   second_cache = HIT_RATE hit_rate,
                   speedup = Finite speedup\<rparr>))"

definition num_requests :: nat where
  "num_requests = 5"

definition run_cache_persistence_test ::
  "env \<Rightarrow> RedisCache \<Rightarrow> provider_config \<Rightarrow> world \<Rightarrow> (pyexc + scenario) \<times> world" where
  "run_cache_persistence_test E cache pc w =
     (let test_message = py ''What is 2+2? Answer in one word.''
      in case request_loop E cache pc test_message num_requests [] [] w of
           (Inl e, w') \<Rightarrow> (Inl e, w')
         | (Inr (tms, hits), w') \<Rightarrow> (statistics tms hits, w'))"

section \<open>Notions used in the statements\<close>

text \<open>A text is ASCII when all its code points are below 128.\<close>

definition ascii :: "pystr \<Rightarrow> bool" where
  "ascii s \<longleftrightarrow> (\<forall>c \<in> set s. c < 128)"

text \<open>
  A Unicode scalar value is a code point that is not a surrogate; \<open>unicode_text\<close> is
  a string of such. The scalar parameter values are \<^verbatim>\<open>None\<close>, booleans, integers and
  such strings. \<open>chat_message r c\<close> is the dict \<^verbatim>\<open>{"role": r, "content": c}\<close>.
  \<open>short_char\<close> reads back the two-character escapes, and \<open>head_kind\<close> tells from the
  first character of a JSON text which kind of scalar it encodes (\<open>value_kind\<close>).
\<close>

definition scalar_value :: "nat \<Rightarrow> bool" where
  "scalar_value c \<longleftrightarrow> c < 0x110000 \<and> \<not> (0xD800 \<le> c \<and> c \<le> 0xDFFF)"

definition unicode_text :: "pystr \<Rightarrow> bool" where
  "unicode_text s \<longleftrightarrow> list_all scalar_value s"

fun json_scalar :: "pyval \<Rightarrow> bool" where
  "json_scalar PNone = True"
| "json_scalar (PBool b) = True"
| "json_scalar (PInt i) = True"
| "json_scalar (PStr s) = unicode_text s"
| "json_scalar (PList vs) = False"
| "json_scalar (PDict kvs) = False"

definition chat_message :: "pystr \<Rightarrow> pystr \<Rightarrow> pyval" where
  "chat_message r c = PDict [(py ''role'', PStr r), (py ''content'', PStr c)]"

definition short_char :: "nat \<Rightarrow> nat" where
  "short_char x = (if x = 98 then 8 else if x = 102 then 12 else if x = 110 then 10
                   else if x = 114 then 13 else if x = 116 then 9 else x)"

definition head_kind :: "nat \<Rightarrow> nat" where
  "head_kind h = (if h = 110 then 0 else if h = 116 \<or> h = 102 then 1 else if h = 34 then 3 else 2)"

fun value_kind :: "pyval \<Rightarrow> nat" where
  "value_kind PNone = 0"
| "value_kind (PBool b) = 1"
| "value_kind (PInt i) = 2"
| "value_kind (PStr s) = 3"
| "value_kind (PList vs) = 4"
| "value_kind (PDict kvs) = 5"

text \<open>
  \<open>next_fault\<close>: the coming command fails in transport. \<open>healthy\<close>: no coming command
  does. \<open>sent c r\<close> is the client's side of the server after command \<open>c\<close>.
\<close>

definition next_fault :: "redis \<Rightarrow> bool" where
  "next_fault r = (case faults r of [] \<Rightarrow> False | f # fs \<Rightarrow> f)"

definition sent :: "command \<Rightarrow> redis \<Rightarrow> redis" where
  "sent c r = r\<lparr>faults := tl (faults r), trace := trace r @ [c]\<rparr>"

definition healthy :: "redis \<Rightarrow> bool" where
  "healthy r \<longleftrightarrow> True \<notin> set (faults r)"

text \<open>
  The locals \<^verbatim>\<open>messages\<close> and \<^verbatim>\<open>params\<close> of \<^verbatim>\<open>make_cached_chat_request\<close>.
\<close>

definition request_messages :: "pystr \<Rightarrow> pyval list" where
  "request_messages message =
     [PDict [(py ''role'', PStr (py ''user'')), (py ''content'', PStr message)]]"

definition request_params :: "(pystr \<times> pyval) list" where
  "request_params = [(py ''max_tokens'', PInt 100)]"

text \<open>
  \<open>purge p\<close> empties a slot whose key matches the pattern \<open>p\<close>; \<open>set_all\<close> writes a
  list of entries with \<open>RedisCache.set\<close>, one after the other, with the default time to
  live; a key is in the namespace of the cache when it begins with \<^verbatim>\<open>llm_cache:\<close>.
\<close>

definition purge :: "pystr \<Rightarrow> slot \<Rightarrow> slot" where
  "purge pattern sl =
     (case sl of None \<Rightarrow> None | Some (k, v, t) \<Rightarrow> if glob_match pattern k then None else sl)"

fun set_all :: "RedisCache \<Rightarrow> (pystr \<times> pyval) list \<Rightarrow> redis \<Rightarrow> redis" where
  "set_all cache [] r = r"
| "set_all cache ((k, v) # entries) r = set_all cache entries (snd (RedisCache_set cache k v None r))"

definition in_namespace :: "pystr \<Rightarrow> bool" where
  "in_namespace k \<longleftrightarrow> take 10 k = py ''llm_cache:''"

text \<open>
  From \<^verbatim>\<open>config.py\<close>, and a concrete environment to instantiate the theorems with: a
  response of the gateway, a decoder that reads that response back and rejects every
  other text, a gateway that always returns it, and a clock.
\<close>

definition OLLAMA_CONFIG :: provider_config where
  "OLLAMA_CONFIG = \<lparr>provider = py ''ollama'',
                     custom_host = py ''http://portkey-gateway-ollama:11434'',
                     model = py ''llama3''\<rparr>"

definition CACHE_MAX_AGE :: int where
  "CACHE_MAX_AGE = 300"

definition a_response :: pyval where
  "a_response =
     PDict [(py ''id'', PStr (py ''chatcmpl-1'')),
            (py ''choices'',
               PList [PDict [(py ''finish_reason'', PStr (py ''stop'')),
                             (py ''index'', PInt 0),
                             (py ''message'',
                                PDict [(py ''content'', PStr (py '' Paris '')),
                                       (py ''role'', PStr (py ''assistant''))])]]),
            (py ''model'', PStr (py ''llama3''))]"

definition an_env :: env where
  "an_env = \<lparr>json_loads = (\<lambda>s. if s = json_dumps False a_response then Some a_response
                              else None),
             create = (\<lambda>n pc msgs ps. Inr a_response),
             time = (\<lambda>n. if n < 2 then 0 else 1)\<rparr>"

definition a_cache :: RedisCache where
  "a_cache = \<lparr>default_ttl = CACHE_MAX_AGE\<rparr>"

definition empty_server :: redis where
  "empty_server = \<lparr>table = [], faults = [], trace = []\<rparr>"

text \<open>
  The key of the request \<^verbatim>\<open>ping\<close> to \<^verbatim>\<open>OLLAMA_CONFIG\<close>, as CPython computes it, a
  world in which nothing has happened yet, and variants of the environment: a gateway
  that fails, a decoder that accepts a payload of another shape, another clock.
\<close>

definition ping_key :: pystr where
  "ping_key = py ''llm_cache:3ce3512cdc0f7c4f3aeaef53658fa9dda1f53389cbaad9cf9c86457bf9de75c7''"

definition fresh_world :: world where
  "fresh_world = \<lparr>server = empty_server, calls = 0, ticks = 0\<rparr>"

definition failing_env :: env where
  "failing_env = an_env\<lparr>create := (\<lambda>n pc msgs ps. Inl (ComputeError (py ''timeout'')))\<rparr>"

definition odd_payload :: pyval where
  "odd_payload = PDict [(py ''a'', PInt 1)]"

definition odd_env :: env where
  "odd_env = an_env\<lparr>json_loads := (\<lambda>s. if s = json_dumps False odd_payload
                                         then Some odd_payload else None)\<rparr>"

definition steady_env :: env where
  "steady_env = an_env\<lparr>time := (\<lambda>n. real (n * n))\<rparr>"

text \<open>A server that other data shares.\<close>

definition shared_server :: redis where
  "shared_server = \<lparr>table = [Some (py ''session:1'', py ''x'', 60)], faults = [], trace = []\<rparr>"

section \<open>Properties of the cache key\<close>

text \<open>
  The text that \<^verbatim>\<open>json.dumps\<close> returns is ASCII, so \<^verbatim>\<open>key_json.encode()\<close> never
  raises and \<open>get_cache_key\<close> always returns a key.
\<close>

lemma ascii_simps [simp]:
  "ascii []" "ascii (c # s) \<longleftrightarrow> c < 128 \<and> ascii s" "ascii (s @ t) \<longleftrightarrow> ascii s \<and> ascii t"
  by (auto simp: ascii_def)


lemma hex_digit_ascii: "d < 16 \<Longrightarrow> hex_digit d < 128"
  by (simp add: hex_digit_def)

lemma ascii_u_escape [simp]: "ascii (u_escape n)"
  by (simp add: u_escape_def hex4_def hex_digit_ascii)

lemma ascii_escape_char [simp]: "ascii (escape_char c)"
  by (simp add: escape_char_def Let_def)

lemma ascii_concat: "(\<And>x. x \<in> set xs \<Longrightarrow> ascii x) \<Longrightarrow> ascii (concat xs)"
  by (induction xs) auto

lemma ascii_encode_str [simp]: "ascii (encode_str s)"
proof -
  have "ascii (concat (map escape_char s))"
    by (rule ascii_concat) auto
  then show ?thesis
    by (simp add: encode_str_def)
qed

lemma ascii_nat_digits [simp]: "ascii (nat_digits n)"
proof (induction n rule: nat_digits.induct)
  case (1 n)
  have "n mod 10 < 10"
    by simp
  then have "48 + n mod 10 < 128"
    by linarith
  with 1 show ?case
    by (subst nat_digits.simps) simp
qed

lemma ascii_int_repr [simp]: "ascii (int_repr i)"
  by (simp add: int_repr_def)

lemma ascii_join_sep: "(\<And>x. x \<in> set xs \<Longrightarrow> ascii x) \<Longrightarrow> ascii (join_sep xs)"
  by (induction xs rule: join_sep.induct) auto

lemma ascii_json_dumps [simp]: "ascii (json_dumps sk v)"
  by (induction sk v rule: json_dumps.induct) (auto simp: py_def intro!: ascii_join_sep)

lemma nat_digits_nonempty [simp]: "nat_digits n \<noteq> []"
  by (subst nat_digits.simps) simp

lemma json_dumps_nonempty [simp]: "json_dumps sk v \<noteq> []"
  by (cases v) (simp_all add: py_def int_repr_def encode_str_def)

lemma str_encode_ascii: "ascii s \<Longrightarrow> str_encode s = Inr (map of_nat s)"
  by (induction s) (auto simp: utf8_char_def)

lemma get_cache_key_eq:
  "get_cache_key p m ms kw =
     Inr (py ''llm_cache:'' @ sha256_hexdigest (map of_nat (key_json p m ms kw)))"
  by (simp add: get_cache_key_def key_json_def str_encode_ascii)


text \<open>The model computes the key that CPython computes for this request.\<close>

lemma ping_key:
  "get_cache_key (provider OLLAMA_CONFIG) (model OLLAMA_CONFIG) (request_messages (py ''ping''))
     request_params = Inr ping_key"
  by code_simp

text \<open>
  The encoding of strings is injective on Unicode text, the encoding of scalars on
  scalars, and one changed field changes the text.
\<close>

lemma and_mask10: "(x::nat) AND 0x3ff = x mod 1024"
proof -
  have "(0x3ff::nat) = mask 10"
    by (simp add: mask_eq_exp_minus_1)
  then have "x AND 0x3ff = take_bit 10 x"
    by (simp add: take_bit_eq_mask)
  then show ?thesis
    by (simp add: take_bit_eq_mod)
qed

lemma or_add_1024:
  assumes "x < 1024"
  shows "(a * 1024) OR x = a * 1024 + (x::nat)"
proof -
  have x: "take_bit 10 x = x"
    using assms by (simp add: take_bit_nat_eq_self)
  have a: "a * 1024 = push_bit 10 a"
    by (simp add: push_bit_eq_mult)
  have "push_bit 10 a AND take_bit 10 x = 0"
    by (simp add: bit_eq_iff bit_and_iff bit_push_bit_iff bit_take_bit_iff)
  then have "push_bit 10 a + take_bit 10 x = push_bit 10 a OR take_bit 10 x"
    by (rule disjunctive_add_eq_or)
  then show ?thesis
    by (simp add: x a)
qed

lemma escape_pair:
  assumes "0x10000 \<le> c"
  shows "escape_char c = u_escape (0xd800 + (c - 0x10000) div 1024 mod 1024) @
                         u_escape (0xdc00 + (c - 0x10000) mod 1024)"
proof -
  let ?n = "c - 0x10000"
  have hi: "0xd800 OR (drop_bit 10 ?n AND 0x3ff) = 0xd800 + ?n div 1024 mod 1024"
    using or_add_1024 [of "?n div 1024 mod 1024" 54]
    by (simp add: and_mask10 drop_bit_eq_div)
  have lo: "0xdc00 OR (?n AND 0x3ff) = 0xdc00 + ?n mod 1024"
    using or_add_1024 [of "?n mod 1024" 55]
    by (simp add: and_mask10)
  from assms have "escape_char c =
      u_escape (0xd800 OR (drop_bit 10 ?n AND 0x3ff)) @ u_escape (0xdc00 OR (?n AND 0x3ff))"
    by (simp add: escape_char_def Let_def)
  then show ?thesis
    by (simp only: hi lo)
qed

lemma hex_digit_inj: "d < 16 \<Longrightarrow> e < 16 \<Longrightarrow> hex_digit d = hex_digit e \<Longrightarrow> d = e"
  by (simp add: hex_digit_def split: if_splits)

lemma div_mod_16_eq:
  "(a::nat) div 16 = b div 16 \<Longrightarrow> a mod 16 = b mod 16 \<Longrightarrow> a = b"
  by (metis div_mult_mod_eq)

lemma hex4_inj:
  assumes "n < 65536" and "m < 65536" and "hex4 n = hex4 m"
  shows "n = m"
proof -
  from assms(3) have d: "n div 4096 mod 16 = m div 4096 mod 16"
    "n div 256 mod 16 = m div 256 mod 16"
    "n div 16 mod 16 = m div 16 mod 16" "n mod 16 = m mod 16"
    by (auto simp: hex4_def intro: hex_digit_inj)
  have "n div 4096 < 16" "m div 4096 < 16"
    using assms(1,2) by simp_all
  with d(1) have e3: "n div 4096 = m div 4096"
    by simp
  have "n div 256 div 16 = m div 256 div 16"
    using e3 by (simp add: div_mult2_eq [symmetric])
  with d(2) have e2: "n div 256 = m div 256"
    by (blast intro: div_mod_16_eq)
  have "n div 16 div 16 = m div 16 div 16"
    using e2 by (simp add: div_mult2_eq [symmetric])
  with d(3) have e1: "n div 16 = m div 16"
    by (blast intro: div_mod_16_eq)
  from e1 d(4) show ?thesis
    by (rule div_mod_16_eq)
qed

lemma u_escape_inj:
  assumes "u_escape n @ X = u_escape m @ Y" and "n < 65536" and "m < 65536"
  shows "n = m \<and> X = Y"
proof -
  have "length (u_escape n) = length (u_escape m)"
    by (simp add: u_escape_def hex4_def)
  with assms(1) have "u_escape n = u_escape m" "X = Y"
    by simp_all
  then have "hex4 n = hex4 m"
    by (simp add: u_escape_def)
  with assms(2,3) \<open>X = Y\<close> show ?thesis
    by (simp add: hex4_inj)
qed

lemma escape_char_forms:
  assumes "scalar_value c"
  obtains (literal) "escape_char c = [c]" "c \<noteq> 92"
  | (short) x where "escape_char c = [92, x]" "x \<noteq> 117" "c = short_char x"
  | (bmp) "escape_char c = u_escape c" "c < 0xD800 \<or> 0xDFFF < c" "c < 0x10000"
  | (pair) "escape_char c = u_escape (0xd800 + (c - 0x10000) div 1024) @
                            u_escape (0xdc00 + (c - 0x10000) mod 1024)"
           "0x10000 \<le> c" "c < 0x110000"
proof (cases "0x10000 \<le> c")
  case True
  with assms have "c < 0x110000"
    by (simp add: scalar_value_def)
  then have "(c - 0x10000) div 1024 < 1024"
    by simp
  then have "(c - 0x10000) div 1024 mod 1024 = (c - 0x10000) div 1024"
    by simp
  with escape_pair [OF True] True \<open>c < 0x110000\<close> pair show ?thesis
    by simp
next
  case False
  then have small: "c < 0x10000"
    by simp
  consider "c = 92 \<or> c = 34 \<or> c = 8 \<or> c = 12 \<or> c = 10 \<or> c = 13 \<or> c = 9"
    | "c \<noteq> 92" "c \<noteq> 34" "32 \<le> c \<and> c \<le> 126"
    | "c \<noteq> 8" "c \<noteq> 12" "c \<noteq> 10" "c \<noteq> 13" "c \<noteq> 9" "\<not> (32 \<le> c \<and> c \<le> 126)"
    by blast
  then show ?thesis
  proof cases
    case 1
    define x where "x = (if c = 8 then 98 else if c = 12 then 102 else if c = 10 then 110
                         else if c = 13 then 114 else if c = 9 then 116 else c)"
    from 1 have "escape_char c = [92, x]" "x \<noteq> 117" "c = short_char x"
      by (auto simp: escape_char_def short_char_def x_def)
    then show ?thesis
      by (rule short)
  next
    case 2
    then show ?thesis
      by (intro literal) (auto simp: escape_char_def)
  next
    case 3
    with small assms show ?thesis
      by (intro bmp) (auto simp: escape_char_def scalar_value_def)
  qed
qed


lemma short_char_inj:
  assumes "[92, x] @ X = [92, y] @ Y"
  shows "short_char x = short_char y"
  using assms by simp

lemma escape_char_prefix_inj:
  assumes c: "scalar_value c" and d: "scalar_value d"
    and eq: "escape_char c @ X = escape_char d @ Y"
  shows "c = d"
  using c
proof (cases rule: escape_char_forms)
  case literal
  from d show ?thesis
  proof (cases rule: escape_char_forms)
    case literal
    with \<open>escape_char c = [c]\<close> eq show ?thesis by simp
  next
    case (short y)
    with \<open>escape_char c = [c]\<close> \<open>c \<noteq> 92\<close> eq show ?thesis by simp
  next
    case bmp
    with \<open>escape_char c = [c]\<close> \<open>c \<noteq> 92\<close> eq show ?thesis by (simp add: u_escape_def)
  next
    case pair
    with \<open>escape_char c = [c]\<close> \<open>c \<noteq> 92\<close> eq show ?thesis by (simp add: u_escape_def)
  qed
next
  case (short x)
  note cs = short
  from d show ?thesis
  proof (cases rule: escape_char_forms)
    case literal
    with cs eq show ?thesis by simp
  next
    case (short y)
    with cs eq show ?thesis by simp
  next
    case bmp
    with cs eq show ?thesis by (simp add: u_escape_def)
  next
    case pair
    with cs eq show ?thesis by (simp add: u_escape_def)
  qed
next
  case bmp
  note cb = bmp
  from d show ?thesis
  proof (cases rule: escape_char_forms)
    case literal
    with cb eq show ?thesis by (simp add: u_escape_def)
  next
    case (short y)
    with cb eq show ?thesis by (simp add: u_escape_def)
  next
    case bmp
    with cb eq u_escape_inj [of c X d Y] show ?thesis by simp
  next
    case pair
    let ?hi = "0xd800 + (d - 0x10000) div 1024"
    let ?lo = "0xdc00 + (d - 0x10000) mod 1024"
    from pair have hi: "?hi < 65536" "0xD800 \<le> ?hi" "?hi \<le> 0xDFFF"
      by simp_all
    from eq cb(1) pair(1) have "u_escape c @ X = u_escape ?hi @ (u_escape ?lo @ Y)"
      by simp
    with u_escape_inj [of c X ?hi "u_escape ?lo @ Y"] cb(3) hi(1) have "c = ?hi"
      by blast
    with cb(2) hi(2,3) show ?thesis
      by linarith
  qed
next
  case pair
  note cp = pair
  let ?hi = "0xd800 + (c - 0x10000) div 1024"
  let ?lo = "0xdc00 + (c - 0x10000) mod 1024"
  from cp have hi: "?hi < 65536" "0xD800 \<le> ?hi" "?hi \<le> 0xDFFF" and lo: "?lo < 65536"
    by simp_all
  from d show ?thesis
  proof (cases rule: escape_char_forms)
    case literal
    with cp eq show ?thesis by (simp add: u_escape_def)
  next
    case (short y)
    with cp eq show ?thesis by (simp add: u_escape_def)
  next
    case bmp
    from eq cp(1) bmp(1) have "u_escape ?hi @ (u_escape ?lo @ X) = u_escape d @ Y"
      by simp
    with u_escape_inj [of ?hi "u_escape ?lo @ X" d Y] bmp(3) hi(1) have "?hi = d"
      by blast
    with bmp(2) hi(2,3) show ?thesis
      by linarith
  next
    case pair
    let ?hi' = "0xd800 + (d - 0x10000) div 1024"
    let ?lo' = "0xdc00 + (d - 0x10000) mod 1024"
    from pair have hi': "?hi' < 65536" and lo': "?lo' < 65536"
      by simp_all
    from eq cp(1) pair(1)
    have e: "u_escape ?hi @ (u_escape ?lo @ X) = u_escape ?hi' @ (u_escape ?lo' @ Y)"
      by simp
    from u_escape_inj [OF e hi(1) hi'] have h: "?hi = ?hi'"
      and r: "u_escape ?lo @ X = u_escape ?lo' @ Y"
      by simp_all
    from u_escape_inj [OF r lo lo'] have l: "?lo = ?lo'"
      by simp
    from h l have "(c - 0x10000) div 1024 = (d - 0x10000) div 1024"
      "(c - 0x10000) mod 1024 = (d - 0x10000) mod 1024"
      by simp_all
    then have "c - 0x10000 = d - 0x10000"
      by (metis div_mult_mod_eq)
    with cp(2) pair(2) show ?thesis
      by simp
  qed
qed

lemma escape_char_nonempty: "escape_char c \<noteq> []"
  by (simp add: escape_char_def u_escape_def Let_def)

lemma escaped_inj:
  "unicode_text s \<Longrightarrow> unicode_text t \<Longrightarrow>
   concat (map escape_char s) = concat (map escape_char t) \<Longrightarrow> s = t"
proof (induction s arbitrary: t)
  case Nil
  then show ?case
    by (cases t) (simp_all add: escape_char_nonempty)
next
  case (Cons c s)
  show ?case
  proof (cases t)
    case Nil
    with Cons.prems show ?thesis
      by (simp add: escape_char_nonempty)
  next
    case (Cons d t')
    from Cons.prems(1,2) Cons have sv: "scalar_value c" "scalar_value d"
      "unicode_text s" "unicode_text t'"
      by (simp_all add: unicode_text_def)
    from Cons.prems(3) Cons
    have eq: "escape_char c @ concat (map escape_char s) = escape_char d @ concat (map escape_char t')"
      by simp
    from escape_char_prefix_inj [OF sv(1,2) eq] have cd: "c = d" .
    with eq have "concat (map escape_char s) = concat (map escape_char t')"
      by simp
    with Cons.IH [OF sv(3,4)] cd Cons show ?thesis
      by simp
  qed
qed

lemma encode_str_inj:
  "unicode_text s \<Longrightarrow> unicode_text t \<Longrightarrow> encode_str s = encode_str t \<Longrightarrow> s = t"
  by (simp add: encode_str_def escaped_inj)


lemma nat_digits_range: "\<forall>x \<in> set (nat_digits n). 48 \<le> x \<and> x \<le> 57"
proof (induction n rule: nat_digits.induct)
  case (1 n)
  have "n mod 10 < 10"
    by simp
  then have "48 + n mod 10 \<le> 57"
    by linarith
  with 1 show ?case
    by (subst nat_digits.simps) auto
qed

lemma nat_digits_inj: "nat_digits n = nat_digits m \<Longrightarrow> n = m"
proof (induction n arbitrary: m rule: nat_digits.induct)
  case (1 n)
  show ?case
  proof (cases "n < 10")
    case True
    show ?thesis
    proof (cases "m < 10")
      case m: True
      from "1.prems" True m show ?thesis
        by (simp add: nat_digits.simps [of n] nat_digits.simps [of m])
    next
      case m: False
      from "1.prems" True m have "nat_digits (m div 10) = []"
        by (simp add: nat_digits.simps [of n] nat_digits.simps [of m] Cons_eq_append_conv)
      then show ?thesis
        by simp
    qed
  next
    case False
    show ?thesis
    proof (cases "m < 10")
      case m: True
      from "1.prems" False m have "nat_digits (n div 10) = []"
        by (simp add: nat_digits.simps [of n] nat_digits.simps [of m] append_eq_Cons_conv)
      then show ?thesis
        by simp
    next
      case m: False
      from "1.prems" False m
      have "nat_digits (n div 10) = nat_digits (m div 10)" "n mod 10 = m mod 10"
        by (simp_all add: nat_digits.simps [of n] nat_digits.simps [of m])
      with "1.IH" [OF False] have "n div 10 = m div 10" "n mod 10 = m mod 10"
        by simp_all
      then show ?thesis
        by (metis div_mult_mod_eq)
    qed
  qed
qed

lemma nat_digits_no_minus: "nat_digits n \<noteq> 45 # xs"
  using nat_digits_range [of n] by (cases "nat_digits n") auto

lemma int_repr_inj: "int_repr i = int_repr j \<Longrightarrow> i = j"
proof -
  assume eq: "int_repr i = int_repr j"
  consider "i < 0" "j < 0" | "i < 0" "\<not> j < 0" | "\<not> i < 0" "j < 0" | "\<not> i < 0" "\<not> j < 0"
    by blast
  then show ?thesis
  proof cases
    case 1
    with eq have "nat (- i) = nat (- j)"
      by (simp add: int_repr_def nat_digits_inj)
    with 1 show ?thesis by simp
  next
    case 2
    with eq have "nat_digits (nat j) = 45 # nat_digits (nat (- i))"
      by (simp add: int_repr_def)
    with nat_digits_no_minus show ?thesis
      by blast
  next
    case 3
    with eq have "nat_digits (nat i) = 45 # nat_digits (nat (- j))"
      by (simp add: int_repr_def)
    with nat_digits_no_minus show ?thesis
      by blast
  next
    case 4
    with eq have "nat i = nat j"
      by (simp add: int_repr_def nat_digits_inj)
    with 4 show ?thesis by simp
  qed
qed

lemma int_repr_head:
  "int_repr i \<noteq> [] \<and> (hd (int_repr i) = 45 \<or> (48 \<le> hd (int_repr i) \<and> hd (int_repr i) \<le> 57))"
  using nat_digits_range [of "nat i"] nat_digits_nonempty [of "nat i"]
  by (cases "nat_digits (nat i)") (auto simp: int_repr_def)

lemma scalar_head_kind:
  "json_scalar v \<Longrightarrow> head_kind (hd (json_dumps sk v)) = value_kind v"
proof (cases v)
  case (PInt i)
  with int_repr_head [of i] show ?thesis
    by (auto simp: head_kind_def)
qed (simp_all add: py_def encode_str_def head_kind_def)

lemma json_scalar_inj:
  assumes "json_scalar v" and "json_scalar w" and "json_dumps sk v = json_dumps sk w"
  shows "v = w"
proof -
  from assms have k: "value_kind v = value_kind w"
    using scalar_head_kind [of v sk] scalar_head_kind [of w sk] by simp
  show ?thesis
  proof (cases v)
    case PNone
    with k show ?thesis by (cases w) simp_all
  next
    case (PBool b)
    with k obtain b' where w: "w = PBool b'" by (cases w) simp_all
    with assms(3) PBool show ?thesis
      by (auto simp: py_def split: if_splits)
  next
    case (PInt i)
    with k obtain j where w: "w = PInt j" by (cases w) simp_all
    with assms(3) PInt show ?thesis
      by (simp add: int_repr_inj)
  next
    case (PStr s)
    with k obtain t where w: "w = PStr t" by (cases w) simp_all
    with assms PStr show ?thesis
      by (simp add: encode_str_inj)
  next
    case (PList vs)
    with assms show ?thesis by simp
  next
    case (PDict kvs)
    with assms show ?thesis by simp
  qed
qed


lemma key_json_text:
  "key_json p m ms kw =
     [123] @ encode_str (py ''messages'') @ [58, 32] @ json_dumps True (PList ms) @ [44, 32] @
     encode_str (py ''model'') @ [58, 32] @ encode_str m @ [44, 32] @
     encode_str (py ''params'') @ [58, 32] @ json_dumps True (PDict (sort_key fst kw)) @ [44, 32] @
     encode_str (py ''provider'') @ [58, 32] @ encode_str p @ [125]"
  by (simp add: key_json_def key_data_def py_def)

lemma join_sep_Cons:
  "join_sep (a # ys) = a @ concat (map (\<lambda>y. [44, 32] @ y) ys)"
  by (induction ys arbitrary: a) simp_all

lemma join_sep_mid:
  "join_sep (xs @ a # ys) =
     concat (map (\<lambda>x. x @ [44, 32]) xs) @ a @ concat (map (\<lambda>y. [44, 32] @ y) ys)"
proof (induction xs)
  case Nil
  then show ?case by (simp add: join_sep_Cons)
next
  case (Cons x xs)
  then show ?case
    by (cases xs) (simp_all add: join_sep_Cons)
qed

lemma insort_key_same_keys:
  assumes "\<And>x. fst (h x) = fst x"
  shows "insort_key fst (h x) (map h xs) = map h (insort_key fst x xs)"
  by (induction xs) (simp_all add: assms)

lemma sort_key_same_keys:
  assumes "\<And>x. fst (h x) = fst x"
  shows "sort_key fst (map h xs) = map h (sort_key fst xs)"
  by (induction xs) (simp_all add: insort_key_same_keys [OF assms])


lemma byte_of_nat_inj:
  assumes "a < 128" and "b < 128" and "(of_nat a :: byte) = of_nat b"
  shows "a = b"
proof -
  from assms(3) have "unat (of_nat a :: byte) = unat (of_nat b :: byte)"
    by simp
  with assms(1,2) show ?thesis
    by (simp add: unat_of_nat)
qed

lemma bytes_inj:
  "ascii s \<Longrightarrow> ascii t \<Longrightarrow> map of_nat s = (map of_nat t :: byte list) \<Longrightarrow> s = t"
proof (induction s arbitrary: t)
  case Nil
  then show ?case by simp
next
  case (Cons a s)
  then show ?case
    by (cases t) (auto dest: byte_of_nat_inj)
qed

lemma ascii_key_json [simp]: "ascii (key_json p m ms kw)"
  by (simp add: key_json_def)

lemma hashed_text_differs:
  assumes "key_json p m ms kw \<noteq> key_json p' m' ms' kw'"
  shows "str_encode (key_json p m ms kw) \<noteq> str_encode (key_json p' m' ms' kw')"
  using assms bytes_inj [of "key_json p m ms kw" "key_json p' m' ms' kw'"]
  by (auto simp: str_encode_ascii)

lemma provider_change:
  assumes "unicode_text p" and "unicode_text p'" and "p \<noteq> p'"
  shows "key_json p m ms kw \<noteq> key_json p' m ms kw"
  using assms encode_str_inj [of p p'] by (auto simp: key_json_text)

lemma model_change:
  assumes "unicode_text m" and "unicode_text m'" and "m \<noteq> m'"
  shows "key_json p m ms kw \<noteq> key_json p m' ms kw"
  using assms encode_str_inj [of m m'] by (auto simp: key_json_text)

lemma chat_message_text:
  "json_dumps True (chat_message r c) =
     [123] @ encode_str (py ''content'') @ [58, 32] @ encode_str c @ [44, 32] @
     encode_str (py ''role'') @ [58, 32] @ encode_str r @ [125]"
  by (simp add: chat_message_def py_def)

lemma content_change:
  assumes "unicode_text c" and "unicode_text c'" and "c \<noteq> c'"
  shows "key_json p m (pre @ chat_message r c # post) kw
           \<noteq> key_json p m (pre @ chat_message r c' # post) kw"
proof
  assume "key_json p m (pre @ chat_message r c # post) kw
            = key_json p m (pre @ chat_message r c' # post) kw"
  then have "json_dumps True (PList (pre @ chat_message r c # post))
      = json_dumps True (PList (pre @ chat_message r c' # post))"
    by (simp add: key_json_text)
  then have "json_dumps True (chat_message r c) = json_dumps True (chat_message r c')"
    by (simp add: join_sep_mid)
  then have "encode_str c = encode_str c'"
    by (simp add: chat_message_text)
  with assms show False
    by (simp add: encode_str_inj)
qed

lemma no_key: "k \<notin> fst ` set xs \<Longrightarrow> x \<in> set xs \<Longrightarrow> fst x \<noteq> k"
  by (metis image_eqI)

lemma distinct_keys_sort:
  "distinct (map fst xs) \<Longrightarrow> distinct (map fst (sort_key fst xs))"
  by (simp add: distinct_map)

lemma param_change:
  assumes "json_scalar v" and "json_scalar v'" and "v \<noteq> v'"
    and d: "distinct (map fst (kw1 @ (k, v) # kw2))"
  shows "key_json p m ms (kw1 @ (k, v) # kw2) \<noteq> key_json p m ms (kw1 @ (k, v') # kw2)"
proof
  let ?kw = "kw1 @ (k, v) # kw2"
  let ?kw' = "kw1 @ (k, v') # kw2"
  let ?h = "\<lambda>x. if fst x = k then (k, v') else x"
  let ?f = "\<lambda>kv. encode_str (fst kv) @ [58, 32] @ json_dumps True (snd kv)"
  assume eq: "key_json p m ms ?kw = key_json p m ms ?kw'"
  have keys: "\<And>x. fst (?h x) = fst x"
    by simp
  have "k \<notin> fst ` set kw1" "k \<notin> fst ` set kw2"
    using d by simp_all
  then have "map ?h kw1 = kw1" "map ?h kw2 = kw2"
    by (simp_all add: map_idI no_key)
  then have kw': "?kw' = map ?h ?kw"
    by simp
  define S where "S = sort_key fst ?kw"
  have S': "sort_key fst ?kw' = map ?h S"
    unfolding kw' S_def by (rule sort_key_same_keys) simp
  have dS: "distinct (map fst S)"
    unfolding S_def using d by (rule distinct_keys_sort)
  have sS: "sorted (map fst S)"
    by (simp add: S_def)
  have "(k, v) \<in> set S"
    by (simp add: S_def)
  then obtain L R where S: "S = L @ (k, v) # R"
    by (auto dest: split_list)
  have "k \<notin> fst ` set L" "k \<notin> fst ` set R"
    using dS unfolding S by simp_all
  then have "map ?h L = L" "map ?h R = R"
    by (simp_all add: map_idI no_key)
  then have hS: "map ?h S = L @ (k, v') # R"
    by (simp add: S)
  have sS': "sorted (map fst (map ?h S))"
    unfolding S' [symmetric] by simp
  have dump: "json_dumps True (PDict S) = [123] @ join_sep (map ?f (L @ (k, v) # R)) @ [125]"
    using sort_key_id_if_sorted [OF sS] by (simp add: S)
  have dump': "json_dumps True (PDict (map ?h S)) = [123] @ join_sep (map ?f (L @ (k, v') # R)) @ [125]"
    using sort_key_id_if_sorted [OF sS'] by (simp add: hS)
  from eq have "json_dumps True (PDict S) = json_dumps True (PDict (map ?h S))"
    by (simp add: key_json_text S_def [symmetric] S')
  then have "?f (k, v) = ?f (k, v')"
    unfolding dump dump' by (simp add: join_sep_mid)
  then have "json_dumps True v = json_dumps True v'"
    by simp
  with assms(1-3) json_scalar_inj show False
    by blast
qed

lemma sorted_items_insertion_order:
  assumes "distinct (map fst kw1)" and "distinct (map fst kw2)" and "set kw1 = set kw2"
  shows "sort_key fst kw1 = sort_key fst kw2"
proof (rule map_sorted_distinct_set_unique [where f = fst])
  show "inj_on fst (set (sort_key fst kw1) \<union> set (sort_key fst kw2))"
    using assms by (simp add: distinct_map)
  show "distinct (map fst (sort_key fst kw1))"
    using assms(1) by (simp add: distinct_map)
  show "distinct (map fst (sort_key fst kw2))"
    using assms(2) by (simp add: distinct_map)
qed (simp_all add: assms(3))

text \<open>
  C1 (fingerprint determinism). Two requests with the same provider, model and message
  sequence, and the same set of parameter key/value pairs, given to \<open>get_cache_key\<close> in
  two different insertion orders of the \<^verbatim>\<open>kwargs\<close> dict, get the same cache key.
\<close>

theorem get_cache_key_insertion_order:
  assumes "distinct (map fst kw1)" and "distinct (map fst kw2)" and "set kw1 = set kw2"
  shows "get_cache_key prov mdl msgs kw1 = get_cache_key prov mdl msgs kw2"
  using sorted_items_insertion_order [OF assms]
  by (simp add: get_cache_key_def key_json_def key_data_def)

theorem get_cache_key_insertion_order_witness:
  "distinct (map fst [(py ''max_tokens'', PInt 100), (py ''seed'', PInt 7)]) \<and>
   distinct (map fst [(py ''seed'', PInt 7), (py ''max_tokens'', PInt 100)]) \<and>
   set [(py ''max_tokens'', PInt 100), (py ''seed'', PInt 7)] =
     set [(py ''seed'', PInt 7), (py ''max_tokens'', PInt 100)] \<and>
   get_cache_key (py ''ollama'') (py ''llama3'')
       [PDict [(py ''role'', PStr (py ''user'')), (py ''content'', PStr (py ''ping''))]]
       [(py ''max_tokens'', PInt 100), (py ''seed'', PInt 7)] =
     get_cache_key (py ''ollama'') (py ''llama3'')
       [PDict [(py ''role'', PStr (py ''user'')), (py ''content'', PStr (py ''ping''))]]
       [(py ''seed'', PInt 7), (py ''max_tokens'', PInt 100)]"
proof -
  have d1: "distinct (map fst [(py ''max_tokens'', PInt 100), (py ''seed'', PInt 7)])"
    by (simp add: py_def)
  have d2: "distinct (map fst [(py ''seed'', PInt 7), (py ''max_tokens'', PInt 100)])"
    by (simp add: py_def)
  have s: "set [(py ''max_tokens'', PInt 100), (py ''seed'', PInt 7)] =
           set [(py ''seed'', PInt 7), (py ''max_tokens'', PInt 100)]"
    by auto
  show ?thesis
    using d1 d2 s get_cache_key_insertion_order [OF d1 d2 s] by blast
qed





section \<open>Properties of the store and of \<^verbatim>\<open>RedisCache\<close>\<close>

lemma transport_eq: "transport c r = (\<not> next_fault r, sent c r)"
  by (simp add: transport_def next_fault_def sent_def split: list.splits)

lemma sent_simps [simp]:
  "table (sent c r) = table r" "trace (sent c r) = trace r @ [c]" "faults (sent c r) = tl (faults r)"
  by (simp_all add: sent_def)

lemma healthy_sent [simp]: "healthy r \<Longrightarrow> healthy (sent c r)"
  by (cases "faults r") (auto simp: healthy_def sent_def)

lemma healthy_next [simp]: "healthy r \<Longrightarrow> \<not> next_fault r"
  by (cases "faults r") (auto simp: healthy_def next_fault_def)

lemma healthy_table [simp]: "healthy (r\<lparr>table := t\<rparr>) = healthy r"
  by (simp add: healthy_def)

lemma redis_get_eq:
  "redis_get k r =
     (if next_fault r then Inl RedisError else Inr (map_option fst (lookup (table r) k)),
      sent (GET k) r)"
  by (simp add: redis_get_def transport_eq split: bool.splits)

lemma redis_setex_eq:
  "redis_setex k ttl v r =
     (if next_fault r \<or> ttl \<le> 0 then (Inl RedisError, sent (SETEX k ttl v) r)
      else (Inr (), (sent (SETEX k ttl v) r)\<lparr>table := store (table r) k v ttl\<rparr>))"
  by (simp add: redis_setex_def transport_eq split: bool.splits)

lemma RedisCache_get_eq:
  "RedisCache_get E k r =
     (Inr (if next_fault r then PNone
           else case lookup (table r) k of
                  None \<Rightarrow> PNone
                | Some (s, t) \<Rightarrow>
                    (if s = [] then PNone
                     else (case json_loads E s of None \<Rightarrow> PNone | Some v \<Rightarrow> v))),
      sent (GET k) r)"
  by (simp add: RedisCache_get_def get_body_def redis_get_eq split: option.splits)

lemma RedisCache_set_eq:
  "RedisCache_set self k v ttl r =
     (Inr (),
      if next_fault r \<or> ttl_or ttl (default_ttl self) \<le> 0
      then sent (SETEX k (ttl_or ttl (default_ttl self)) (json_dumps False v)) r
      else (sent (SETEX k (ttl_or ttl (default_ttl self)) (json_dumps False v)) r)
             \<lparr>table := store (table r) k (json_dumps False v) (ttl_or ttl (default_ttl self))\<rparr>)"
  by (simp add: RedisCache_set_def redis_setex_eq)

lemma lookup_store_same [simp]: "lookup (store ss k v t) k = Some (v, t)"
  by (induction ss k v t rule: store.induct) auto

lemma lookup_store_other [simp]: "k' \<noteq> k \<Longrightarrow> lookup (store ss k v t) k' = lookup ss k'"
  by (induction ss k v t rule: store.induct) auto

lemma a_response_content: "response_content a_response = Inr (py ''Paris'')"
  by (simp add: a_response_def response_content_def and_then_def py_def str_strip_def isspace_def)

lemma loads_oops: "json_loads an_env (py ''oops'') = None"
  by (simp add: an_env_def a_response_def py_def)







section \<open>Properties of \<^verbatim>\<open>RedisCache.clear\<close>\<close>

lemma slot_keys_simps [simp]:
  "slot_keys [] = []"
  "slot_keys (None # ss) = slot_keys ss"
  "slot_keys (Some (k, v, t) # ss) = k # slot_keys ss"
  "slot_keys (a @ b) = slot_keys a @ slot_keys b"
  by (simp_all add: slot_keys_def List.map_filter_def)

lemma lookup_None_iff: "lookup ss k = None \<longleftrightarrow> k \<notin> set (slot_keys ss)"
  by (induction ss k rule: lookup.induct) auto

lemma slot_keys_purge: "slot_keys (map (purge p) ss) = filter (\<lambda>k. \<not> glob_match p k) (slot_keys ss)"
proof (induction ss)
  case Nil
  then show ?case by simp
next
  case (Cons sl ss)
  then show ?case
    by (cases sl) (auto simp: purge_def)
qed

lemma lookup_purge:
  "lookup (map (purge p) ss) k = (if glob_match p k then None else lookup ss k)"
proof (induction ss)
  case Nil
  then show ?case by simp
next
  case (Cons sl ss)
  then show ?case
    by (cases sl) (auto simp: purge_def)
qed

lemma remove_outside:
  "set (slot_keys ss) \<inter> set ks = {} \<Longrightarrow> map (remove ks) ss = ss"
proof (induction ss)
  case Nil
  then show ?case by simp
next
  case (Cons sl ss)
  then show ?case
    by (cases sl) (auto simp: remove_def)
qed

lemma remove_inside:
  "map (remove (filter (glob_match p) (slot_keys ss @ extra))) ss = map (purge p) ss"
proof (induction ss arbitrary: extra)
  case Nil
  then show ?case by simp
next
  case (Cons sl ss)
  show ?case
  proof (cases sl)
    case None
    with Cons show ?thesis
      by (simp add: remove_def purge_def)
  next
    case (Some e)
    obtain k v t where e: "e = (k, v, t)"
      by (cases e)
    have rest: "map (remove (filter (glob_match p) (k # slot_keys ss @ extra))) ss
        = map (purge p) ss"
    proof -
      have "map (remove (filter (glob_match p) (k # slot_keys ss @ extra))) ss =
            map (remove (filter (glob_match p) (slot_keys ss @ (extra @ [k])))) ss"
        by (rule map_cong) (auto simp: remove_def split: option.splits)
      then show ?thesis
        using Cons [of "extra @ [k]"] by simp
    qed
    show ?thesis
      using rest by (simp add: Some e remove_def purge_def)
  qed
qed

lemma delete_batch:
  assumes "distinct (slot_keys (A @ B @ C))"
  shows "map (remove (filter (glob_match p) (slot_keys B))) (A @ B @ C) = A @ map (purge p) B @ C"
proof -
  let ?ks = "filter (glob_match p) (slot_keys B)"
  have "set (slot_keys A) \<inter> set ?ks = {}" "set (slot_keys C) \<inter> set ?ks = {}"
    using assms by auto
  then have "map (remove ?ks) A = A" "map (remove ?ks) C = C"
    by (simp_all add: remove_outside)
  moreover have "map (remove ?ks) B = map (purge p) B"
    using remove_inside [of p B "[]"] by simp
  ultimately show ?thesis
    by simp
qed

lemma redis_scan_eq:
  "redis_scan cursor pattern n r =
     (if next_fault r then Inl RedisError
      else Inr (if cursor + n < length (table r) then cursor + n else 0,
                filter (glob_match pattern) (slot_keys (take n (drop cursor (table r))))),
      sent (SCAN cursor pattern n) r)"
  by (simp add: redis_scan_def transport_eq split: bool.splits)

lemma redis_delete_eq:
  "redis_delete ks r =
     (if next_fault r then (Inl RedisError, sent (DEL ks) r)
      else (Inr (length (filter (\<lambda>k. k \<in> set ks) (slot_keys (table r)))),
            (sent (DEL ks) r)\<lparr>table := map (remove ks) (table r)\<rparr>))"
  by (simp add: redis_delete_def transport_eq split: bool.splits)

lemma clear_loop_healthy:
  assumes "healthy r"
  shows "clear_loop pattern cursor cnt r =
     (let keys = filter (glob_match pattern) (slot_keys (take 100 (drop cursor (table r))));
          r1 = sent (SCAN cursor pattern 100) r;
          r2 = (if keys \<noteq> [] then (sent (DEL keys) r1)\<lparr>table := map (remove keys) (table r)\<rparr>
                else r1)
      in if cursor + 100 < length (table r) then clear_loop pattern (cursor + 100) (cnt + length keys) r2
         else (Inr (cnt + length keys), r2))"
  using assms
  by (subst clear_loop.simps) (simp add: redis_scan_eq redis_delete_eq Let_def)


lemma clear_loop_result:
  assumes "healthy r" and "distinct (slot_keys (table r))"
  shows "\<exists>r'. clear_loop pattern cursor cnt r =
           (Inr (cnt + length (filter (glob_match pattern) (slot_keys (drop cursor (table r))))), r') \<and>
         table r' = take cursor (table r) @ map (purge pattern) (drop cursor (table r)) \<and>
         healthy r'"
  using assms
proof (induction "length (table r) - cursor" arbitrary: cursor cnt r rule: less_induct)
  case less
  define A where "A = take cursor (table r)"
  define B where "B = take 100 (drop cursor (table r))"
  define C where "C = drop (cursor + 100) (table r)"
  define keys where "keys = filter (glob_match pattern) (slot_keys B)"
  define r2 where "r2 = (if keys \<noteq> []
      then (sent (DEL keys) (sent (SCAN cursor pattern 100) r))\<lparr>table := map (remove keys) (table r)\<rparr>
      else sent (SCAN cursor pattern 100) r)"
  have dB: "drop cursor (table r) = B @ C"
    unfolding B_def C_def by (metis add.commute append_take_drop_id drop_drop)
  have split: "table r = A @ B @ C"
    unfolding A_def dB [symmetric] by simp
  have dist: "distinct (slot_keys (A @ B @ C))"
    using less.prems(2) split by simp
  have del: "map (remove keys) (table r) = A @ map (purge pattern) B @ C"
    using delete_batch [OF dist, of pattern] split keys_def by simp
  have nokeys: "keys = [] \<Longrightarrow> map (purge pattern) B = B"
    using remove_inside [of pattern B "[]"] by (simp add: remove_outside keys_def)
  have t2: "table r2 = A @ map (purge pattern) B @ C"
    using del nokeys split by (cases "keys = []") (simp_all add: r2_def)
  have h2: "healthy r2"
    using less.prems(1) by (simp add: r2_def)
  have d2: "distinct (slot_keys (table r2))"
    using dist by (auto simp: t2 slot_keys_purge)
  have lenA: "length A = min (length (table r)) cursor"
    by (simp add: A_def)
  have step: "clear_loop pattern cursor cnt r =
      (if cursor + 100 < length (table r)
       then clear_loop pattern (cursor + 100) (cnt + length keys) r2
       else (Inr (cnt + length keys), r2))"
    using clear_loop_healthy [OF less.prems(1), of pattern cursor cnt]
    by (simp add: Let_def keys_def B_def r2_def)
  have count: "length (filter (glob_match pattern) (slot_keys (drop cursor (table r)))) =
      length keys + length (filter (glob_match pattern) (slot_keys C))"
    by (simp add: dB keys_def)
  show ?case
  proof (cases "cursor + 100 < length (table r)")
    case False
    then have "C = []"
      by (simp add: C_def)
    with step False t2 h2 count show ?thesis
      by (simp add: dB A_def [symmetric])
  next
    case True
    then have lenAB: "length (A @ map (purge pattern) B) = cursor + 100"
      by (simp add: A_def B_def)
    have t2': "table r2 = (A @ map (purge pattern) B) @ C"
      by (simp add: t2)
    have tk: "take (cursor + 100) (table r2) = A @ map (purge pattern) B"
      unfolding t2' using lenAB by (metis append_eq_conv_conj)
    have dr: "drop (cursor + 100) (table r2) = C"
      unfolding t2' using lenAB by (metis append_eq_conv_conj)
    have len2: "length (table r2) = length (table r)"
      by (simp add: t2 split)
    have m: "length (table r2) - (cursor + 100) < length (table r) - cursor"
      using True len2 by simp
    from less.hyps [OF m h2 d2, of "cnt + length keys"] obtain r' where
      r': "clear_loop pattern (cursor + 100) (cnt + length keys) r2 =
             (Inr (cnt + length keys +
                length (filter (glob_match pattern) (slot_keys (drop (cursor + 100) (table r2))))), r')"
          "table r' = take (cursor + 100) (table r2) @
                      map (purge pattern) (drop (cursor + 100) (table r2))"
          "healthy r'"
      by blast
    have "clear_loop pattern cursor cnt r =
        (Inr (cnt + length (filter (glob_match pattern) (slot_keys (drop cursor (table r))))), r')"
      using step True r'(1) by (simp add: dr count)
    moreover have "table r' = take cursor (table r) @ map (purge pattern) (drop cursor (table r))"
      using r'(2) by (simp add: tk dr dB A_def [symmetric])
    ultimately show ?thesis
      using r'(3) by blast
  qed
qed


lemma glob_star [simp]: "glob_match [42] s"
  by (induction s) auto

lemma glob_literal_prefix:
  assumes "\<forall>c \<in> set pre. c \<noteq> 42 \<and> c \<noteq> 63 \<and> c \<noteq> 92"
  shows "glob_match (pre @ [42]) s \<longleftrightarrow> take (length pre) s = pre"
  using assms
proof (induction pre arbitrary: s)
  case Nil
  then show ?case by simp
next
  case (Cons p pre)
  then show ?case
    by (cases s) auto
qed

lemma default_pattern_namespace: "glob_match default_pattern k = in_namespace k"
proof -
  have "default_pattern = py ''llm_cache:'' @ [42]"
    by (simp add: default_pattern_def py_def)
  moreover have "\<forall>c \<in> set (py ''llm_cache:''). c \<noteq> 42 \<and> c \<noteq> 63 \<and> c \<noteq> 92"
    by (simp add: py_def)
  moreover have "length (py ''llm_cache:'') = 10"
    by (simp add: py_def)
  ultimately show ?thesis
    using glob_literal_prefix [of "py ''llm_cache:''" k] by (simp add: in_namespace_def)
qed

lemma slot_keys_store:
  "slot_keys (store ss k v t) = (if k \<in> set (slot_keys ss) then slot_keys ss else slot_keys ss @ [k])"
  by (induction ss k v t rule: store.induct) auto

lemma set_one:
  assumes "healthy r" and "0 < default_ttl cache"
  shows "table (snd (RedisCache_set cache k v None r))
           = store (table r) k (json_dumps False v) (default_ttl cache)"
    and "healthy (snd (RedisCache_set cache k v None r))"
  using assms by (simp_all add: RedisCache_set_eq ttl_or_def)

lemma set_all_table:
  assumes "0 < default_ttl cache"
  shows "healthy r \<Longrightarrow> distinct (map fst entries) \<Longrightarrow>
         set (map fst entries) \<inter> set (slot_keys (table r)) = {} \<Longrightarrow>
         healthy (set_all cache entries r) \<and>
         slot_keys (table (set_all cache entries r)) = slot_keys (table r) @ map fst entries \<and>
         (\<forall>k. k \<notin> set (map fst entries) \<longrightarrow>
              lookup (table (set_all cache entries r)) k = lookup (table r) k) \<and>
         (\<forall>(k, v) \<in> set entries.
              lookup (table (set_all cache entries r)) k
                = Some (json_dumps False v, default_ttl cache))"
proof (induction entries arbitrary: r)
  case Nil
  then show ?case by simp
next
  case (Cons e entries)
  obtain k v where e: "e = (k, v)"
    by (cases e)
  let ?r1 = "snd (RedisCache_set cache k v None r)"
  have t1: "table ?r1 = store (table r) k (json_dumps False v) (default_ttl cache)"
    and h1: "healthy ?r1"
    using set_one [OF Cons.prems(1) assms] by simp_all
  have k1: "slot_keys (table ?r1) = slot_keys (table r) @ [k]"
    using Cons.prems(3) by (simp add: t1 slot_keys_store e)
  have d1: "distinct (map fst entries)"
    using Cons.prems(2) by simp
  have i1: "set (map fst entries) \<inter> set (slot_keys (table ?r1)) = {}"
    using Cons.prems(2,3) by (auto simp: k1 e)
  note IH = Cons.IH [OF h1 d1 i1]
  have kn: "k \<notin> set (map fst entries)"
    using Cons.prems(2) by (simp add: e)
  have lk: "lookup (table (set_all cache entries ?r1)) k
      = Some (json_dumps False v, default_ttl cache)"
    using IH kn by (simp add: t1)
  have other: "k' \<notin> set (map fst (e # entries)) \<Longrightarrow>
      lookup (table (set_all cache (e # entries) r)) k' = lookup (table r) k'" for k'
    using IH by (simp add: e t1)
  show ?case
    using IH lk other by (auto simp: e k1)
qed

text \<open>
  C7 (invalidation). On a server that answers, whose namespace \<^verbatim>\<open>llm_cache:\<close> is
  empty, after K entries with distinct keys of the namespace have been written (each
  is then in the table), \<open>RedisCache.clear\<close> with the default pattern returns K, every
  one of the K keys is a miss for \<open>RedisCache.get\<close> afterwards, and the entries
  outside the namespace are as before. With K = 0: when no key matches, it returns 0.
\<close>

theorem clear_invalidates:
  assumes healthy: "healthy r"
    and keys: "distinct (slot_keys (table r))"
    and empty: "\<forall>k \<in> set (slot_keys (table r)). \<not> in_namespace k"
    and entries: "distinct (map fst entries)" "\<forall>k \<in> set (map fst entries). in_namespace k"
    and ttl: "0 < default_ttl cache"
  shows "(\<forall>(k, v) \<in> set entries.
            lookup (table (set_all cache entries r)) k
              = Some (json_dumps False v, default_ttl cache)) \<and>
         (\<exists>r'. RedisCache_clear default_pattern (set_all cache entries r)
                  = (Inr (length entries), r') \<and>
               (\<forall>k \<in> set (map fst entries). fst (RedisCache_get E k r') = Inr PNone) \<and>
               (\<forall>k. \<not> in_namespace k \<longrightarrow> lookup (table r') k = lookup (table r) k))"
proof -
  let ?r = "set_all cache entries r"
  have disj: "set (map fst entries) \<inter> set (slot_keys (table r)) = {}"
    using empty entries(2) by auto
  note written = set_all_table [OF ttl healthy entries(1) disj]
  have dist: "distinct (slot_keys (table ?r))"
    using written keys entries(1) disj by auto
  have matching: "filter (glob_match default_pattern) (slot_keys (table ?r)) = map fst entries"
    using written empty entries(2) by (simp add: default_pattern_namespace)
  from clear_loop_result [of ?r default_pattern 0 0] written dist obtain r' where
    r': "clear_loop default_pattern 0 0 ?r
           = (Inr (0 + length (filter (glob_match default_pattern)
                (slot_keys (drop 0 (table ?r))))), r')"
        "table r' = take 0 (table ?r) @ map (purge default_pattern) (drop 0 (table ?r))"
    by blast
  have run: "RedisCache_clear default_pattern ?r = (Inr (length entries), r')"
    using r'(1) matching by (simp add: RedisCache_clear_def)
  have gone: "fst (RedisCache_get E k r') = Inr PNone" if "k \<in> set (map fst entries)" for k
    using that entries(2) r'(2)
    by (auto simp: RedisCache_get_eq lookup_purge default_pattern_namespace)
  have kept: "lookup (table r') k = lookup (table r) k" if "\<not> in_namespace k" for k
  proof -
    have "k \<notin> set (map fst entries)"
      using that entries(2) by blast
    with written have "lookup (table ?r) k = lookup (table r) k"
      by blast
    with that r'(2) show ?thesis
      by (simp add: lookup_purge default_pattern_namespace)
  qed
  from written run gone kept show ?thesis
    by blast
qed


theorem clear_invalidates_witness:
  "(\<exists>r'. RedisCache_clear default_pattern
            (set_all a_cache [(ping_key, a_response), (py ''llm_cache:k2'', PNone)] shared_server)
          = (Inr 2, r') \<and>
         fst (RedisCache_get an_env ping_key r') = Inr PNone \<and>
         fst (RedisCache_get an_env (py ''llm_cache:k2'') r') = Inr PNone \<and>
         lookup (table r') (py ''session:1'') = Some (py ''x'', 60)) \<and>
   fst (RedisCache_clear default_pattern shared_server) = Inr 0"
proof -
  let ?entries = "[(ping_key, a_response), (py ''llm_cache:k2'', PNone)]"
  have healthy: "healthy shared_server"
    by (simp add: shared_server_def healthy_def)
  have keys: "distinct (slot_keys (table shared_server))"
    by (simp add: shared_server_def)
  have empty: "\<forall>k \<in> set (slot_keys (table shared_server)). \<not> in_namespace k"
    by (simp add: shared_server_def in_namespace_def py_def)
  have d: "distinct (map fst ?entries)"
    by (simp add: ping_key_def py_def)
  have ns: "\<forall>k \<in> set (map fst ?entries). in_namespace k"
    by (simp add: ping_key_def in_namespace_def py_def)
  have ttl: "0 < default_ttl a_cache"
    by (simp add: a_cache_def CACHE_MAX_AGE_def)
  have other: "\<not> in_namespace (py ''session:1'')"
    by (simp add: in_namespace_def py_def)
  from clear_invalidates [OF healthy keys empty d ns ttl, of an_env] other
  have 1: "\<exists>r'. RedisCache_clear default_pattern (set_all a_cache ?entries shared_server)
          = (Inr 2, r') \<and>
         fst (RedisCache_get an_env ping_key r') = Inr PNone \<and>
         fst (RedisCache_get an_env (py ''llm_cache:k2'') r') = Inr PNone \<and>
         lookup (table r') (py ''session:1'') = Some (py ''x'', 60)"
    by (auto simp: shared_server_def)
  from clear_invalidates [OF healthy keys empty _ _ ttl, of "[]" an_env]
  have 2: "fst (RedisCache_clear default_pattern shared_server) = Inr 0"
    by auto
  from 1 2 show ?thesis
    by blast
qed

section \<open>Properties of \<^verbatim>\<open>make_cached_chat_request\<close>\<close>

lemma tick_simps [simp]:
  "fst (tick E w) = time E (ticks w)"
  "server (snd (tick E w)) = server w" "calls (snd (tick E w)) = calls w"
  "ticks (snd (tick E w)) = Suc (ticks w)"
  by (simp_all add: tick_def)

lemma api_call_no_cache:
  "api_call E cache pc key msgs ps False w =
     (and_then (create E (calls w) pc msgs ps) (\<lambda>response.
        and_then (response_content response) (\<lambda>content.
          Inr (content, time E (Suc (ticks w)) - time E (ticks w), False))),
      w\<lparr>calls := Suc (calls w),
        ticks := (case create E (calls w) pc msgs ps of Inl e \<Rightarrow> Suc (ticks w)
                  | Inr response \<Rightarrow> Suc (Suc (ticks w)))\<rparr>)"
  by (simp add: api_call_def tick_def and_then_def split: sum.splits)

lemma mccr_no_cache:
  "make_cached_chat_request E cache pc message False w =
     api_call E cache pc
       (py ''llm_cache:'' @ sha256_hexdigest (map of_nat
          (key_json (provider pc) (model pc) (request_messages message) request_params)))
       (request_messages message) request_params False w"
  by (simp add: make_cached_chat_request_def get_cache_key_eq request_messages_def
      request_params_def Let_def)

text \<open>
  C6 (bypass). With \<^verbatim>\<open>use_cache=False\<close> the gateway is called once, whatever the store
  holds; the server is left exactly as it was, its trace included, so no command is
  sent to it; a result has \<^verbatim>\<open>cache_hit = False\<close>, and it is the content of the
  gateway's response when there is one.
\<close>

theorem bypass:
  "calls (snd (make_cached_chat_request E cache pc message False w)) = Suc (calls w) \<and>
   server (snd (make_cached_chat_request E cache pc message False w)) = server w \<and>
   (\<forall>content elapsed hit.
      fst (make_cached_chat_request E cache pc message False w) = Inr (content, elapsed, hit)
      \<longrightarrow> \<not> hit) \<and>
   (\<forall>response content.
      create E (calls w) pc (request_messages message) request_params = Inr response \<and>
      response_content response = Inr content \<longrightarrow>
      (\<exists>elapsed. fst (make_cached_chat_request E cache pc message False w) =
         Inr (content, elapsed, False)))"
  by (auto simp: mccr_no_cache api_call_no_cache and_then_def split: sum.splits)

theorem bypass_witness:
  "(\<exists>elapsed. fst (make_cached_chat_request an_env a_cache OLLAMA_CONFIG (py ''ping'') False
        (fresh_world\<lparr>server := \<lparr>table = [Some (ping_key, json_dumps False a_response, 300)],
                                 faults = [], trace = []\<rparr>\<rparr>))
      = Inr (py ''Paris'', elapsed, False)) \<and>
   calls (snd (make_cached_chat_request an_env a_cache OLLAMA_CONFIG (py ''ping'') False
        (fresh_world\<lparr>server := \<lparr>table = [Some (ping_key, json_dumps False a_response, 300)],
                                 faults = [], trace = []\<rparr>\<rparr>))) = 1 \<and>
   server (snd (make_cached_chat_request an_env a_cache OLLAMA_CONFIG (py ''ping'') False
        (fresh_world\<lparr>server := \<lparr>table = [Some (ping_key, json_dumps False a_response, 300)],
                                 faults = [], trace = []\<rparr>\<rparr>)))
     = \<lparr>table = [Some (ping_key, json_dumps False a_response, 300)], faults = [], trace = []\<rparr>"
proof -
  let ?w = "fresh_world\<lparr>server := \<lparr>table = [Some (ping_key, json_dumps False a_response, 300)],
                                 faults = [], trace = []\<rparr>\<rparr>"
  have c: "create an_env (calls ?w) OLLAMA_CONFIG (request_messages (py ''ping'')) request_params
             = Inr a_response \<and> response_content a_response = Inr (py ''Paris'')"
    by (simp add: an_env_def a_response_content)
  from bypass [of an_env a_cache OLLAMA_CONFIG "py ''ping''" ?w] c
  show ?thesis
    by (simp add: fresh_world_def)
qed

lemma mccr_use_cache:
  assumes "get_cache_key (provider pc) (model pc) (request_messages message) request_params
             = Inr cache_key"
  shows "make_cached_chat_request E cache pc message True w =
     (let v = (case fst (RedisCache_get E cache_key (server w)) of Inr v \<Rightarrow> v | Inl e \<Rightarrow> PNone);
          w2 = w\<lparr>ticks := Suc (ticks w), server := sent (GET cache_key) (server w)\<rparr>
      in if truthy v then
           (case cached_content v of
              Inl e \<Rightarrow> (Inl e, w2\<lparr>ticks := Suc (Suc (ticks w))\<rparr>)
            | Inr content \<Rightarrow>
                (Inr (content, time E (Suc (ticks w)) - time E (ticks w), True),
                 w2\<lparr>ticks := Suc (Suc (ticks w))\<rparr>))
         else api_call E cache pc cache_key (request_messages message) request_params True w2)"
  using assms
  by (simp add: make_cached_chat_request_def request_messages_def request_params_def
      RedisCache_get_eq tick_def Let_def split: sum.splits)

text \<open>
  C4 (compute-failure atomicity). With \<^verbatim>\<open>use_cache=True\<close>, when the cache read gives
  nothing usable and the gateway call raises, that exception reaches the caller
  unchanged; the table of the server is unchanged and the only command sent is the
  \<^verbatim>\<open>GET\<close> of the read.
\<close>

theorem compute_failure_atomic:
  assumes key: "get_cache_key (provider pc) (model pc) (request_messages message) request_params
                  = Inr cache_key"
    and miss: "fst (RedisCache_get E cache_key (server w)) = Inr v" "\<not> truthy v"
    and fail: "create E (calls w) pc (request_messages message) request_params = Inl e"
  shows "fst (make_cached_chat_request E cache pc message True w) = Inl e \<and>
         table (server (snd (make_cached_chat_request E cache pc message True w)))
           = table (server w) \<and>
         trace (server (snd (make_cached_chat_request E cache pc message True w)))
           = trace (server w) @ [GET cache_key]"
  using miss fail
  by (simp add: mccr_use_cache [OF key] api_call_def tick_def Let_def)

theorem compute_failure_atomic_witness:
  "fst (make_cached_chat_request failing_env a_cache OLLAMA_CONFIG (py ''ping'') True fresh_world)
     = Inl (ComputeError (py ''timeout'')) \<and>
   table (server (snd (make_cached_chat_request failing_env a_cache OLLAMA_CONFIG (py ''ping'')
     True fresh_world))) = [] \<and>
   trace (server (snd (make_cached_chat_request failing_env a_cache OLLAMA_CONFIG (py ''ping'')
     True fresh_world))) = [GET ping_key]"
proof -
  have miss: "fst (RedisCache_get failing_env ping_key (server fresh_world)) = Inr PNone"
    by (simp add: RedisCache_get_eq fresh_world_def empty_server_def next_fault_def)
  have nt: "\<not> truthy PNone"
    by simp
  have fail: "create failing_env (calls fresh_world) OLLAMA_CONFIG (request_messages (py ''ping''))
      request_params = Inl (ComputeError (py ''timeout''))"
    by (simp add: failing_env_def)
  from compute_failure_atomic [OF ping_key miss nt fail, of a_cache]
  show ?thesis
    by (simp add: fresh_world_def empty_server_def)
qed

text \<open>
  C10 (a decodable payload of the wrong shape). With \<^verbatim>\<open>use_cache=True\<close>, when the
  stored payload is accepted by \<^verbatim>\<open>json.loads\<close> and is truthy, but
  \<^verbatim>\<open>cached_response["choices"][0]["message"]["content"].strip()\<close> raises, the call
  raises that exception from the hit path: the gateway is not called and the entry stays.
\<close>

theorem hit_path_raises:
  assumes key: "get_cache_key (provider pc) (model pc) (request_messages message) request_params
                  = Inr cache_key"
    and reach: "\<not> next_fault (server w)"
    and stored: "lookup (table (server w)) cache_key = Some (s, t)" "s \<noteq> []"
    and valid: "json_loads E s = Some v" "truthy v"
    and lacks: "cached_content v = Inl e"
  shows "fst (make_cached_chat_request E cache pc message True w) = Inl e \<and>
         calls (snd (make_cached_chat_request E cache pc message True w)) = calls w \<and>
         table (server (snd (make_cached_chat_request E cache pc message True w)))
           = table (server w)"
  using reach stored valid lacks
  by (simp add: mccr_use_cache [OF key] RedisCache_get_eq Let_def)


theorem hit_path_raises_witness:
  "fst (make_cached_chat_request odd_env a_cache OLLAMA_CONFIG (py ''ping'') True
        (fresh_world\<lparr>server := \<lparr>table = [Some (ping_key, json_dumps False odd_payload, 300)],
                                 faults = [], trace = []\<rparr>\<rparr>)) = Inl KeyError \<and>
   calls (snd (make_cached_chat_request odd_env a_cache OLLAMA_CONFIG (py ''ping'') True
        (fresh_world\<lparr>server := \<lparr>table = [Some (ping_key, json_dumps False odd_payload, 300)],
                                 faults = [], trace = []\<rparr>\<rparr>))) = 0"
proof -
  let ?w = "fresh_world\<lparr>server := \<lparr>table = [Some (ping_key, json_dumps False odd_payload, 300)],
                                 faults = [], trace = []\<rparr>\<rparr>"
  have reach: "\<not> next_fault (server ?w)"
    by (simp add: next_fault_def)
  have stored: "lookup (table (server ?w)) ping_key = Some (json_dumps False odd_payload, 300)"
    by simp
  have ne: "json_dumps False odd_payload \<noteq> []"
    by simp
  have valid: "json_loads odd_env (json_dumps False odd_payload) = Some odd_payload"
    by (simp add: odd_env_def)
  have tr: "truthy odd_payload"
    by (simp add: odd_payload_def)
  have lacks: "cached_content odd_payload = Inl KeyError"
    by (simp add: odd_payload_def cached_content_def and_then_def py_def)
  from hit_path_raises [OF ping_key reach stored ne valid tr lacks, of a_cache]
  show ?thesis
    by (simp add: fresh_world_def)
qed

lemma attribute_subscript: "attribute v k = Inr x \<Longrightarrow> subscript_str v k = Inr x"
  by (cases v) (auto split: option.splits)

lemma response_content_cached:
  assumes "response_content response = Inr content"
  shows "cached_content response = Inr content" and "truthy response"
proof -
  from assms obtain choices choice message c where
    a: "attribute response (py ''choices'') = Inr choices"
       "subscript_0 choices = Inr choice"
       "attribute choice (py ''message'') = Inr message"
       "attribute message (py ''content'') = Inr c"
       "strip c = Inr content"
    by (auto simp: response_content_def and_then_def split: sum.splits)
  then show "cached_content response = Inr content"
    by (simp add: cached_content_def and_then_def attribute_subscript)
  from a(1) show "truthy response"
    by (cases response) (auto split: option.splits)
qed

lemma miss_call:
  assumes key: "get_cache_key (provider pc) (model pc) (request_messages message) request_params
                  = Inr cache_key"
    and healthy: "healthy (server w)"
    and ttl: "0 < default_ttl cache"
    and fresh: "lookup (table (server w)) cache_key = None"
    and compute: "create E (calls w) pc (request_messages message) request_params = Inr response"
    and content: "response_content response = Inr content"
  shows "make_cached_chat_request E cache pc message True w =
      (Inr (content, time E (Suc (Suc (ticks w))) - time E (Suc (ticks w)), False),
       w\<lparr>ticks := Suc (Suc (Suc (ticks w))), calls := Suc (calls w),
         server := (sent (SETEX cache_key (default_ttl cache) (json_dumps False response))
                      (sent (GET cache_key) (server w)))
                   \<lparr>table := store (table (server w)) cache_key (json_dumps False response)
                               (default_ttl cache)\<rparr>\<rparr>)"
  using healthy ttl fresh compute content
  by (simp add: mccr_use_cache [OF key] RedisCache_get_eq api_call_def tick_def Let_def
      RedisCache_set_eq ttl_or_def)

lemma hit_call:
  assumes key: "get_cache_key (provider pc) (model pc) (request_messages message) request_params
                  = Inr cache_key"
    and reach: "\<not> next_fault (server w)"
    and stored: "lookup (table (server w)) cache_key = Some (json_dumps False response, t)"
    and roundtrip: "json_loads E (json_dumps False response) = Some response"
    and content: "response_content response = Inr content"
  shows "make_cached_chat_request E cache pc message True w =
      (Inr (content, time E (Suc (ticks w)) - time E (ticks w), True),
       w\<lparr>ticks := Suc (Suc (ticks w)), server := sent (GET cache_key) (server w)\<rparr>)"
  using reach stored roundtrip response_content_cached [OF content]
  by (simp add: mccr_use_cache [OF key] RedisCache_get_eq Let_def)

text \<open>
  C2 (miss, then hit). For a key that the store does not hold, with a store that
  answers, a positive default time to live, a gateway call that returns a response
  with a content, and a response that \<^verbatim>\<open>json.loads\<close> reads back from its
  \<^verbatim>\<open>json.dumps\<close> text: the first call with \<^verbatim>\<open>use_cache=True\<close> returns
  \<^verbatim>\<open>cache_hit = False\<close> and stores the response; a second call right after it returns
  \<^verbatim>\<open>cache_hit = True\<close> with the content of the stored response and leaves the table
  alone; the gateway has been called once over the two calls.
\<close>

theorem miss_then_hit:
  assumes key: "get_cache_key (provider pc) (model pc) (request_messages message) request_params
                  = Inr cache_key"
    and healthy: "healthy (server w)"
    and ttl: "0 < default_ttl cache"
    and fresh: "lookup (table (server w)) cache_key = None"
    and compute: "create E (calls w) pc (request_messages message) request_params = Inr response"
    and content: "response_content response = Inr content"
    and roundtrip: "json_loads E (json_dumps False response) = Some response"
  shows "\<exists>t1 t2 w1 w2.
           make_cached_chat_request E cache pc message True w = (Inr (content, t1, False), w1) \<and>
           make_cached_chat_request E cache pc message True w1 = (Inr (content, t2, True), w2) \<and>
           calls w2 = Suc (calls w) \<and>
           lookup (table (server w1)) cache_key
             = Some (json_dumps False response, default_ttl cache) \<and>
           table (server w2) = table (server w1)"
proof -
  let ?payload = "json_dumps False response"
  define w1 where "w1 = w\<lparr>ticks := Suc (Suc (Suc (ticks w))), calls := Suc (calls w),
      server := (sent (SETEX cache_key (default_ttl cache) ?payload)
                   (sent (GET cache_key) (server w)))
                 \<lparr>table := store (table (server w)) cache_key ?payload (default_ttl cache)\<rparr>\<rparr>"
  have first: "make_cached_chat_request E cache pc message True w =
      (Inr (content, time E (Suc (Suc (ticks w))) - time E (Suc (ticks w)), False), w1)"
    unfolding w1_def by (rule miss_call [OF key healthy ttl fresh compute content])
  have h1: "\<not> next_fault (server w1)"
    using healthy by (simp add: w1_def)
  have l1: "lookup (table (server w1)) cache_key = Some (?payload, default_ttl cache)"
    by (simp add: w1_def)
  note second = hit_call [OF key h1 l1 roundtrip content]
  show ?thesis
    using first second l1 by (simp add: w1_def)
qed

theorem miss_then_hit_witness:
  "\<exists>t1 t2 w1 w2.
     make_cached_chat_request an_env a_cache OLLAMA_CONFIG (py ''ping'') True fresh_world
       = (Inr (py ''Paris'', t1, False), w1) \<and>
     make_cached_chat_request an_env a_cache OLLAMA_CONFIG (py ''ping'') True w1
       = (Inr (py ''Paris'', t2, True), w2) \<and>
     calls w2 = 1 \<and>
     lookup (table (server w1)) ping_key = Some (json_dumps False a_response, 300)"
proof -
  have healthy: "healthy (server fresh_world)"
    by (simp add: fresh_world_def empty_server_def healthy_def)
  have ttl: "0 < default_ttl a_cache"
    by (simp add: a_cache_def CACHE_MAX_AGE_def)
  have fresh: "lookup (table (server fresh_world)) ping_key = None"
    by (simp add: fresh_world_def empty_server_def)
  have compute: "create an_env (calls fresh_world) OLLAMA_CONFIG (request_messages (py ''ping''))
      request_params = Inr a_response"
    by (simp add: an_env_def)
  have roundtrip: "json_loads an_env (json_dumps False a_response) = Some a_response"
    by (simp add: an_env_def)
  from miss_then_hit [OF ping_key healthy ttl fresh compute a_response_content roundtrip]
  show ?thesis
    by (simp add: fresh_world_def a_cache_def CACHE_MAX_AGE_def) blast
qed

lemma hits_loop:
  assumes key: "get_cache_key (provider pc) (model pc) (request_messages message) request_params
                  = Inr cache_key"
    and roundtrip: "json_loads E (json_dumps False response) = Some response"
    and content: "response_content response = Inr content"
  shows "healthy (server w) \<Longrightarrow>
         lookup (table (server w)) cache_key = Some (json_dumps False response, t) \<Longrightarrow>
         fst (request_loop E cache pc message n tms hits w) =
           Inr (tms @ map (\<lambda>i. time E (Suc (ticks w + 2 * i)) - time E (ticks w + 2 * i)) [0..<n],
                hits @ replicate n True)"
proof (induction n arbitrary: tms hits w)
  case 0
  then show ?case by simp
next
  case (Suc n)
  let ?w' = "w\<lparr>ticks := Suc (Suc (ticks w)), server := sent (GET cache_key) (server w)\<rparr>"
  have nf: "\<not> next_fault (server w)"
    using Suc.prems(1) by simp
  have call: "make_cached_chat_request E cache pc message True w =
      (Inr (content, time E (Suc (ticks w)) - time E (ticks w), True), ?w')"
    by (rule hit_call [OF key nf Suc.prems(2) roundtrip content])
  have h': "healthy (server ?w')"
    using Suc.prems(1) by simp
  have l': "lookup (table (server ?w')) cache_key = Some (json_dumps False response, t)"
    using Suc.prems(2) by simp
  have shift: "map (\<lambda>i. time E (Suc (ticks w + 2 * i)) - time E (ticks w + 2 * i)) [0..<Suc n] =
      (time E (Suc (ticks w)) - time E (ticks w)) #
      map (\<lambda>i. time E (Suc (ticks ?w' + 2 * i)) - time E (ticks ?w' + 2 * i)) [0..<n]"
    by (simp add: upt_conv_Cons map_Suc_upt [symmetric] del: upt_Suc)
  show ?case
    using Suc.IH [OF h' l', of "tms @ [time E (Suc (ticks w)) - time E (ticks w)]" "hits @ [True]"]
    by (simp add: call shift replicate_app_Cons_same del: upt_Suc)
qed


section \<open>Properties of the measurement scenarios\<close>

lemma request_loop_length:
  "request_loop E cache pc msg n tms hits w = (Inr (tms', hits'), w') \<Longrightarrow>
   length tms' = length tms + n"
  by (induction n arbitrary: tms hits w) (auto split: prod.splits sum.splits)

lemma simple_test_run:
  assumes healthy: "healthy (server w)"
    and ttl: "0 < default_ttl cache"
    and fresh: "table (server w) = []"
    and compute: "\<And>n msgs ps. create E n pc msgs ps = Inr response"
    and content: "response_content response = Inr content"
    and roundtrip: "json_loads E (json_dumps False response) = Some response"
  shows "fst (run_simple_cache_test E cache pc w) =
     Inr \<lparr>test = ''Simple Cache (Redis)'',
          first_time = time E (Suc (Suc (ticks w))) - time E (Suc (ticks w)),
          second_time = time E (Suc (Suc (Suc (Suc (ticks w))))) - time E (Suc (Suc (Suc (ticks w)))),
          first_cache = MISS,
          second_cache = HIT,
          speedup =
            (if time E (Suc (Suc (Suc (Suc (ticks w))))) - time E (Suc (Suc (Suc (ticks w)))) > 0
             then Finite ((time E (Suc (Suc (ticks w))) - time E (Suc (ticks w))) /
                    (time E (Suc (Suc (Suc (Suc (ticks w))))) - time E (Suc (Suc (Suc (ticks w))))))
             else PosInf)\<rparr>"
proof -
  let ?msg = "py ''What is the capital of France? Answer in one word.''"
  note key = get_cache_key_eq [of "provider pc" "model pc" "request_messages ?msg" request_params]
  have fr: "lookup (table (server w)) k = None" for k
    by (simp add: fresh)
  note first = miss_call [OF key healthy ttl fr compute content]
  show ?thesis
    unfolding run_simple_cache_test_def Let_def first
    using healthy
    by (simp add: hit_call [OF key _ _ roundtrip content] status_def)
qed

lemma persistence_run:
  assumes healthy: "healthy (server w)"
    and ttl: "0 < default_ttl cache"
    and fresh: "table (server w) = []"
    and compute: "\<And>n msgs ps. create E n pc msgs ps = Inr response"
    and content: "response_content response = Inr content"
    and roundtrip: "json_loads E (json_dumps False response) = Some response"
  shows "fst (run_cache_persistence_test E cache pc w) =
     statistics
       ((time E (Suc (Suc (ticks w))) - time E (Suc (ticks w))) #
        map (\<lambda>i. time E (Suc (ticks w + 3 + 2 * i)) - time E (ticks w + 3 + 2 * i)) [0..<4])
       [False, True, True, True, True]"
proof -
  let ?msg = "py ''What is 2+2? Answer in one word.''"
  note key = get_cache_key_eq [of "provider pc" "model pc" "request_messages ?msg" request_params]
  have fr: "lookup (table (server w)) k = None" for k
    by (simp add: fresh)
  note first = miss_call [OF key healthy ttl fr compute content]
  let ?w1 = "w\<lparr>ticks := Suc (Suc (Suc (ticks w))), calls := Suc (calls w),
         server := (sent (SETEX (py ''llm_cache:'' @ sha256_hexdigest (map of_nat
             (key_json (provider pc) (model pc) (request_messages ?msg) request_params)))
               (default_ttl cache) (json_dumps False response))
                      (sent (GET (py ''llm_cache:'' @ sha256_hexdigest (map of_nat
             (key_json (provider pc) (model pc) (request_messages ?msg) request_params))))
                         (server w)))
                   \<lparr>table := store (table (server w)) (py ''llm_cache:'' @ sha256_hexdigest
             (map of_nat (key_json (provider pc) (model pc) (request_messages ?msg)
                request_params))) (json_dumps False response) (default_ttl cache)\<rparr>\<rparr>"
  have h1: "healthy (server ?w1)"
    using healthy by simp
  have l1: "lookup (table (server ?w1)) (py ''llm_cache:'' @ sha256_hexdigest (map of_nat
             (key_json (provider pc) (model pc) (request_messages ?msg) request_params)))
            = Some (json_dumps False response, default_ttl cache)"
    by simp
  note rest = hits_loop [OF key roundtrip content h1 l1, where cache = cache and n = 4
      and tms = "[time E (Suc (Suc (ticks w))) - time E (Suc (ticks w))]" and hits = "[False]"]
  have five: "request_loop E cache pc ?msg num_requests [] [] w =
      request_loop E cache pc ?msg 4 [time E (Suc (Suc (ticks w))) - time E (Suc (ticks w))]
        [False] ?w1"
    by (simp add: num_requests_def eval_nat_numeral first)
  show ?thesis
    unfolding run_cache_persistence_test_def Let_def five
    using rest
    by (cases "request_loop E cache pc ?msg 4
          [time E (Suc (Suc (ticks w))) - time E (Suc (ticks w))] [False] ?w1")
       (auto simp: eval_nat_numeral)
qed





end
